theory Spec2Isabelle
  imports Complex_Main "HOL-Library.Monad_Syntax" "HOL-Library.Sublist" "HOL-Library.AList" "HOL-Library.Multiset"
begin

section \<open>Decoded JSON and the external world\<close>

text \<open>
  A value as \<^verbatim>\<open>encoding/json\<close> decodes it into \<^verbatim>\<open>interface{}\<close>: nil, bool, float64, string,
  \<^verbatim>\<open>[]interface{}\<close> or \<^verbatim>\<open>map[string]interface{}\<close>. A float64 is held by its exact
  value, a rational. A Go map is held as an association list read with \<open>map_of\<close> and
  written with \<open>AList.update\<close>.
\<close>

datatype json =
    JNull
  | JBool bool
  | JNum rat
  | JStr string
  | JArr "json list"
  | JObj "(string \<times> json) list"

type_synonym doc = "(string \<times> json) list"

text \<open>\<^verbatim>\<open>m[key]\<close> on a Go map: the nil interface when the key is absent.\<close>

definition index :: "doc \<Rightarrow> string \<Rightarrow> json" where
  "index m k = (case map_of m k of None \<Rightarrow> JNull | Some v \<Rightarrow> v)"

text \<open>The comma-ok type assertions \<^verbatim>\<open>v.(string)\<close>, \<^verbatim>\<open>v.(float64)\<close>,
  \<^verbatim>\<open>v.(map[string]interface{})\<close> and \<^verbatim>\<open>v.([]interface{})\<close>: \<open>None\<close> is \<^verbatim>\<open>ok == false\<close>.\<close>

fun as_string :: "json \<Rightarrow> string option" where
  "as_string (JStr s) = Some s"
| "as_string _ = None"

fun as_float64 :: "json \<Rightarrow> rat option" where
  "as_float64 (JNum x) = Some x"
| "as_float64 _ = None"

fun as_map :: "json \<Rightarrow> doc option" where
  "as_map (JObj m) = Some m"
| "as_map _ = None"

fun as_slice :: "json \<Rightarrow> json list option" where
  "as_slice (JArr xs) = Some xs"
| "as_slice _ = None"

record LokiStream =
  Stream :: "(string \<times> string) list"
  Values :: "string list list"

record LokiPushRequest =
  Streams :: "LokiStream list"

text \<open>
  The library and network calls whose results the program does not compute itself:
  \<^item> \<open>json_Marshal\<close>: \<^verbatim>\<open>json.Marshal(logDoc)\<close> as a string (it cannot fail on a decoded document);
  \<^item> \<open>unicode_ToLower\<close>: \<^verbatim>\<open>strings.Map(unicode.ToLower, s)\<close>, the path \<^verbatim>\<open>strings.ToLower\<close>
    takes on a string with a byte outside ASCII;
  \<^item> \<open>http_NewRequest\<close>: whether \<^verbatim>\<open>http.NewRequest\<close> accepts the URL;
  \<^item> \<open>client_Do\<close>: the endpoint's answer to one POST, \<open>None\<close> for a transport error,
    else the status code and the response body (the answer is taken to depend on the URL
    and the request only);
  \<^item> \<open>clearScroll_Do\<close>: whether \<^verbatim>\<open>ClearScrollRequest.Do\<close> returns without error.
\<close>

record env =
  json_Marshal :: "doc \<Rightarrow> string"
  unicode_ToLower :: "string \<Rightarrow> string"
  http_NewRequest :: "string \<Rightarrow> bool"
  client_Do :: "string \<Rightarrow> LokiPushRequest \<Rightarrow> (nat \<times> string) option"
  clearScroll_Do :: "string \<Rightarrow> bool"

datatype push_error =
    ErrTimestampField
  | ErrTimestampParse string
  | ErrNewRequest
  | ErrSend
  | ErrStatus nat string

datatype run_error =
    ErrInitialSearch
  | ErrParseErrorResponse
  | ErrSearch nat json
  | ErrDecodeResponse
  | ErrMissingScrollID
  | ErrScrollRequest
  | ErrCallback push_error

datatype log_entry =
    WarnTimestampFallback string
  | WarnMessageMissing string
  | FailedPush push_error
  | WarnNoSource json
  | ClearingScroll string
  | WarnClearScrollFailed
  | Finished nat
  | FatalTransfer run_error

text \<open>What a run does to the outside, in order: a log line, a POST handed to
  \<^verbatim>\<open>client.Do\<close>, a \<^verbatim>\<open>ClearScrollRequest\<close> sent to the source.\<close>

datatype event =
    Log log_entry
  | Post string LokiPushRequest
  | ClearScroll string

section \<open>\<^verbatim>\<open>time.Parse\<close>, \<^verbatim>\<open>UnixNano\<close> and \<^verbatim>\<open>strconv.FormatInt\<close>\<close>

text \<open>
  The Go standard library's \<^verbatim>\<open>time.Parse\<close>, specialised to the two layouts of
  \<^verbatim>\<open>pushLogToLoki\<close>. The helpers follow \<^verbatim>\<open>time/format.go\<close>: \<open>getnum\<close>, \<open>atoi\<close>,
  \<open>leadingInt\<close>, \<open>skip\<close>, \<open>parseNanoseconds\<close>, and the cases of \<^verbatim>\<open>parse\<close> for the layout
  elements \<^verbatim>\<open>2006\<close> (stdLongYear), \<^verbatim>\<open>01\<close>, \<^verbatim>\<open>02\<close>, \<^verbatim>\<open>15\<close> (stdHour, one or two digits),
  \<^verbatim>\<open>04\<close>, \<^verbatim>\<open>05\<close>, \<^verbatim>\<open>.000\<close> (stdFracSecond0), \<^verbatim>\<open>.999999999\<close> (stdFracSecond9) and
  \<^verbatim>\<open>Z07:00\<close> (stdISO8601ColonTZ), as they stand since Go 1.20 (a comma is read as the
  decimal mark, a zone offset beyond 24 hours or 60 minutes is out of range). A parse
  error is \<open>None\<close>.
\<close>

definition digit :: "char \<Rightarrow> bool" where
  "digit c \<longleftrightarrow> 48 \<le> (of_char c :: nat) \<and> (of_char c :: nat) \<le> 57"

definition digit_val :: "char \<Rightarrow> int" where
  "digit_val c = int (of_char c) - 48"

definition guard :: "bool \<Rightarrow> unit option" where
  "guard b = (if b then Some () else None)"

fun getnum :: "string \<Rightarrow> bool \<Rightarrow> (int \<times> string) option" where
  "getnum [] fixed = None"
| "getnum [a] fixed = (if \<not> digit a then None else if fixed then None else Some (digit_val a, []))"
| "getnum (a # b # s) fixed =
     (if \<not> digit a then None
      else if \<not> digit b then (if fixed then None else Some (digit_val a, b # s))
      else Some (digit_val a * 10 + digit_val b, s))"

text \<open>\<open>leadingInt\<close> reads the leading digits. Its overflow check needs more than 18 digits;
  \<open>atoi\<close> is called here on at most 9 characters.\<close>

fun leadingInt :: "int \<Rightarrow> string \<Rightarrow> int \<times> string" where
  "leadingInt x [] = (x, [])"
| "leadingInt x (c # cs) = (if digit c then leadingInt (x * 10 + digit_val c) cs else (x, c # cs))"

definition atoi :: "string \<Rightarrow> int option" where
  "atoi s =
     (let neg = (s \<noteq> [] \<and> hd s = CHR ''-'');
          s' = (if s \<noteq> [] \<and> (hd s = CHR ''-'' \<or> hd s = CHR ''+'') then tl s else s);
          (q, rem) = leadingInt 0 s'
      in if rem \<noteq> [] then None else Some (if neg then - q else q))"

definition cutspace :: "string \<Rightarrow> string" where
  "cutspace s = dropWhile (\<lambda>c. c = CHR '' '') s"

function skip :: "string \<Rightarrow> string \<Rightarrow> string option" where
  "skip v [] = Some v"
| "skip v (p # ps) =
     (if p = CHR '' '' then
        (if v \<noteq> [] \<and> hd v \<noteq> CHR '' '' then None else skip (cutspace v) (cutspace ps))
      else if v = [] \<or> hd v \<noteq> p then None
      else skip (tl v) ps)"
  by pat_completeness auto
termination
  by (relation "measure (\<lambda>(v, p). length p)")
     (auto simp: cutspace_def less_Suc_eq_le length_dropWhile_le)

definition commaOrPeriod :: "char \<Rightarrow> bool" where
  "commaOrPeriod c \<longleftrightarrow> c = CHR ''.'' \<or> c = CHR '',''"

definition parseNanoseconds :: "string \<Rightarrow> nat \<Rightarrow> int option" where
  "parseNanoseconds v nbytes =
     (if v = [] \<or> \<not> commaOrPeriod (hd v) then None
      else let n = min nbytes 10 in
        (case atoi (take (n - 1) (tl v)) of
           None \<Rightarrow> None
         | Some ns \<Rightarrow> if ns < 0 then None else Some (ns * 10 ^ (10 - n))))"

definition stdLongYear :: "string \<Rightarrow> (int \<times> string) option" where
  "stdLongYear v =
     (if length v < 4 \<or> \<not> digit (hd v) then None
      else map_option (\<lambda>y. (y, drop 4 v)) (atoi (take 4 v)))"

definition stdFracSecond0 :: "nat \<Rightarrow> string \<Rightarrow> (int \<times> string) option" where
  "stdFracSecond0 ndigit v =
     (if length v < ndigit then None
      else map_option (\<lambda>ns. (ns, drop ndigit v)) (parseNanoseconds v ndigit))"

definition stdFracSecond9 :: "string \<Rightarrow> (int \<times> string) option" where
  "stdFracSecond9 v =
     (if length v < 2 \<or> \<not> commaOrPeriod (v ! 0) \<or> \<not> digit (v ! 1) then Some (0, v)
      else let i = length (takeWhile digit (tl v))
           in map_option (\<lambda>ns. (ns, drop (1 + i) v)) (parseNanoseconds v (1 + i)))"

text \<open>The zone of \<^verbatim>\<open>Z07:00\<close>: \<^verbatim>\<open>Z\<close>, or a sign, two digits, a colon and two digits.
  The result is the offset east of UTC in seconds.\<close>

definition stdISO8601ColonTZ :: "string \<Rightarrow> (int \<times> string) option" where
  "stdISO8601ColonTZ v =
     (if v \<noteq> [] \<and> hd v = CHR ''Z'' then Some (0, tl v)
      else if length v < 6 then None
      else if v ! 3 \<noteq> CHR '':'' then None
      else do {
        (hr, _) \<leftarrow> getnum (take 2 (drop 1 v)) True;
        (mm, _) \<leftarrow> getnum (take 2 (drop 4 v)) True;
        _ \<leftarrow> guard (\<not> (hr > 24 \<or> mm > 60));
        if v ! 0 = CHR ''+'' then Some ((hr * 60 + mm) * 60, drop 6 v)
        else if v ! 0 = CHR ''-'' then Some (- ((hr * 60 + mm) * 60), drop 6 v)
        else None
      })"

definition isLeap :: "int \<Rightarrow> bool" where
  "isLeap year \<longleftrightarrow> year mod 4 = 0 \<and> (year mod 100 \<noteq> 0 \<or> year mod 400 = 0)"

definition daysBefore :: "int list" where
  "daysBefore = [0, 31, 59, 90, 120, 151, 181, 212, 243, 273, 304, 334, 365]"

definition daysIn :: "int \<Rightarrow> int \<Rightarrow> int" where
  "daysIn m year =
     (if m = 2 \<and> isLeap year then 29 else daysBefore ! nat m - daysBefore ! nat (m - 1))"

text \<open>Days from 1970-01-01 to January 1 of \<open>year\<close> in the proleptic Gregorian calendar
  (\<open>year\<close> is 0 to 9999 here: four digits).\<close>

definition daysSinceEpoch :: "int \<Rightarrow> int" where
  "daysSinceEpoch year =
     365 * (year - 1970) + ((year - 1) div 4 - (year - 1) div 100 + (year - 1) div 400) - 477"

text \<open>A \<^verbatim>\<open>time.Time\<close>, by what \<^verbatim>\<open>UnixNano\<close> reads of it: the seconds since 1970-01-01T00:00:00Z
  and the nanoseconds within the second.\<close>

record Time =
  unixSec :: int
  nsec :: int

text \<open>\<^verbatim>\<open>time.Date\<close> in UTC. \<^verbatim>\<open>parse\<close> calls it with every field in range, where its
  normalisation changes nothing.\<close>

definition Date :: "int \<Rightarrow> int \<Rightarrow> int \<Rightarrow> int \<Rightarrow> int \<Rightarrow> int \<Rightarrow> int \<Rightarrow> Time" where
  "Date year month day hour mi sec ns =
     (let d = daysSinceEpoch year + daysBefore ! nat (month - 1)
              + (if isLeap year \<and> month \<ge> 3 then 1 else 0) + (day - 1)
      in \<lparr>unixSec = d * 86400 + hour * 3600 + mi * 60 + sec, nsec = ns\<rparr>)"

text \<open>\<^verbatim>\<open>time.Parse("2006-01-02 15:04:05.000", value)\<close>: the zone defaults to UTC.\<close>

definition parse_graylogTimestampFormat :: "string \<Rightarrow> Time option" where
  "parse_graylogTimestampFormat v0 = do {
     (year, v1) \<leftarrow> stdLongYear v0;
     v2 \<leftarrow> skip v1 ''-'';
     (month, v3) \<leftarrow> getnum v2 True;
     _ \<leftarrow> guard (\<not> (month \<le> 0 \<or> 12 < month));
     v4 \<leftarrow> skip v3 ''-'';
     (day, v5) \<leftarrow> getnum v4 True;
     v6 \<leftarrow> skip v5 '' '';
     (hour, v7) \<leftarrow> getnum v6 False;
     _ \<leftarrow> guard (\<not> (hour < 0 \<or> 24 \<le> hour));
     v8 \<leftarrow> skip v7 '':'';
     (mi, v9) \<leftarrow> getnum v8 True;
     _ \<leftarrow> guard (\<not> (mi < 0 \<or> 60 \<le> mi));
     v10 \<leftarrow> skip v9 '':'';
     (sec, v11) \<leftarrow> getnum v10 True;
     _ \<leftarrow> guard (\<not> (sec < 0 \<or> 60 \<le> sec));
     (ns, v12) \<leftarrow> stdFracSecond0 4 v11;
     _ \<leftarrow> guard (v12 = []);
     _ \<leftarrow> guard (\<not> (day < 1 \<or> day > daysIn month year));
     Some (Date year month day hour mi sec ns)
   }"

text \<open>\<^verbatim>\<open>time.Parse(time.RFC3339Nano, value)\<close>, layout \<^verbatim>\<open>2006-01-02T15:04:05.999999999Z07:00\<close>:
  the instant is the civil time in UTC minus the zone offset.\<close>

definition parse_RFC3339Nano :: "string \<Rightarrow> Time option" where
  "parse_RFC3339Nano v0 = do {
     (year, v1) \<leftarrow> stdLongYear v0;
     v2 \<leftarrow> skip v1 ''-'';
     (month, v3) \<leftarrow> getnum v2 True;
     _ \<leftarrow> guard (\<not> (month \<le> 0 \<or> 12 < month));
     v4 \<leftarrow> skip v3 ''-'';
     (day, v5) \<leftarrow> getnum v4 True;
     v6 \<leftarrow> skip v5 ''T'';
     (hour, v7) \<leftarrow> getnum v6 False;
     _ \<leftarrow> guard (\<not> (hour < 0 \<or> 24 \<le> hour));
     v8 \<leftarrow> skip v7 '':'';
     (mi, v9) \<leftarrow> getnum v8 True;
     _ \<leftarrow> guard (\<not> (mi < 0 \<or> 60 \<le> mi));
     v10 \<leftarrow> skip v9 '':'';
     (sec, v11) \<leftarrow> getnum v10 True;
     _ \<leftarrow> guard (\<not> (sec < 0 \<or> 60 \<le> sec));
     (ns, v12) \<leftarrow> stdFracSecond9 v11;
     (zoneOffset, v13) \<leftarrow> stdISO8601ColonTZ v12;
     _ \<leftarrow> guard (v13 = []);
     _ \<leftarrow> guard (\<not> (day < 1 \<or> day > daysIn month year));
     Some (let t = Date year month day hour mi sec ns in t\<lparr>unixSec := unixSec t - zoneOffset\<rparr>)
   }"

text \<open>The instant in nanoseconds since the epoch, as a mathematical integer.\<close>

definition epochNanos :: "Time \<Rightarrow> int" where
  "epochNanos t = unixSec t * 1000000000 + nsec t"

text \<open>An int64 computation keeps the low 64 bits, read as two's complement.\<close>

definition wrap_int64 :: "int \<Rightarrow> int" where
  "wrap_int64 x = (x + 2 ^ 63) mod 2 ^ 64 - 2 ^ 63"

text \<open>\<^verbatim>\<open>t.UnixNano()\<close>: \<^verbatim>\<open>t.unixSec()*1e9 + int64(t.nsec())\<close> in int64.\<close>

definition UnixNano :: "Time \<Rightarrow> int" where
  "UnixNano t = wrap_int64 (unixSec t * 1000000000 + nsec t)"

definition digit_char :: "int \<Rightarrow> char" where
  "digit_char d = ''0123456789'' ! nat d"

text \<open>The decimal digits of a number that is not negative.\<close>

function formatBits :: "int \<Rightarrow> string" where
  "formatBits n = (if n < 10 then [digit_char n] else formatBits (n div 10) @ [digit_char (n mod 10)])"
  by pat_completeness auto
termination
  by (relation "measure nat") auto

declare formatBits.simps [simp del]

text \<open>\<^verbatim>\<open>strconv.FormatInt(i, 10)\<close>.\<close>

definition FormatInt :: "int \<Rightarrow> string" where
  "FormatInt i = (if i < 0 then CHR ''-'' # formatBits (- i) else formatBits i)"

section \<open>\<^verbatim>\<open>convertGraylogLevel\<close> and \<^verbatim>\<open>pushLogToLoki\<close>\<close>

text \<open>main.go lines 297 to 318 (the same text in the sequential file).\<close>

definition convertGraylogLevel :: "int \<Rightarrow> string" where
  "convertGraylogLevel level =
     (if level = 0 then ''emergency''
      else if level = 1 then ''alert''
      else if level = 2 then ''critical''
      else if level = 3 then ''error''
      else if level = 4 then ''warning''
      else if level = 5 then ''notice''
      else if level = 6 then ''info''
      else if level = 7 then ''debug''
      else ''unknown'')"

text \<open>The conversion \<^verbatim>\<open>int(level)\<close> of a float64: the fraction is discarded (truncation
  towards zero). Go leaves the result open when the value does not fit the 64-bit
  \<^verbatim>\<open>int\<close>; amd64 gives the smallest int64, which is what is written here.\<close>

definition trunc :: "rat \<Rightarrow> int" where
  "trunc x = (if x < 0 then - \<lfloor>- x\<rfloor> else \<lfloor>x\<rfloor>)"

definition float64_to_int :: "rat \<Rightarrow> int" where
  "float64_to_int x =
     (let t = trunc x in if - (2 ^ 63) \<le> t \<and> t < 2 ^ 63 then t else - (2 ^ 63))"

definition ascii_lower :: "char \<Rightarrow> char" where
  "ascii_lower c =
     (if 65 \<le> (of_char c :: nat) \<and> (of_char c :: nat) \<le> 90 then char_of ((of_char c :: nat) + 32) else c)"

text \<open>\<^verbatim>\<open>strings.ToLower\<close>: bytewise on a string of ASCII bytes, else the Unicode mapping.\<close>

definition strings_ToLower :: "env \<Rightarrow> string \<Rightarrow> string" where
  "strings_ToLower E s =
     (if list_all (\<lambda>c. (of_char c :: nat) < 128) s then map ascii_lower s else unicode_ToLower E s)"

text \<open>Lines 214 to 230: the timestamp string, or the error returned; with the warning
  logged when only the second layout parses.\<close>

definition timestampNanos :: "doc \<Rightarrow> push_error + (string \<times> log_entry list)" where
  "timestampNanos logDoc =
     (case as_string (index logDoc ''timestamp'') of
        None \<Rightarrow> Inl ErrTimestampField
      | Some timestampStr \<Rightarrow>
          (case parse_graylogTimestampFormat timestampStr of
             Some t \<Rightarrow> Inr (FormatInt (UnixNano t), [])
           | None \<Rightarrow>
               (case parse_RFC3339Nano timestampStr of
                  None \<Rightarrow> Inl (ErrTimestampParse timestampStr)
                | Some parsedTime \<Rightarrow>
                    Inr (FormatInt (UnixNano parsedTime), [WarnTimestampFallback timestampStr]))))"

text \<open>Lines 232 to 237.\<close>

definition message :: "env \<Rightarrow> doc \<Rightarrow> string \<times> log_entry list" where
  "message E logDoc =
     (case as_string (index logDoc ''message'') of
        Some m \<Rightarrow> (m, [])
      | None \<Rightarrow> (json_Marshal E logDoc, [WarnMessageMissing (json_Marshal E logDoc)]))"

text \<open>Lines 239 to 257.\<close>

definition labels :: "env \<Rightarrow> doc \<Rightarrow> string \<Rightarrow> (string \<times> string) list" where
  "labels E logDoc openSearchIndex =
     (let l0 = [(''app'', ''graylog-forwarder''),
                (''source_index'', openSearchIndex),
                (''data_origin'', ''historical'')];
          l1 = (case as_string (index logDoc ''app'') of
                  Some app \<Rightarrow> AList.update ''app_name'' app l0
                | None \<Rightarrow> l0);
          l2 = (case as_float64 (index logDoc ''level'') of
                  Some level \<Rightarrow>
                    AList.update ''log_level'' (convertGraylogLevel (float64_to_int level)) l1
                | None \<Rightarrow>
                    (case as_string (index logDoc ''level'') of
                       Some levelStr \<Rightarrow> AList.update ''log_level'' (strings_ToLower E levelStr) l1
                     | None \<Rightarrow> l1))
      in (case as_string (index logDoc ''host'') of
            Some host \<Rightarrow> AList.update ''host'' host l2
          | None \<Rightarrow> l2))"

text \<open>Lines 214 to 268, the normalisation of one document: the push request built from it
  and the warnings logged on the way, or the error returned before anything is logged.\<close>

definition normalize :: "env \<Rightarrow> doc \<Rightarrow> string \<Rightarrow> push_error + (LokiPushRequest \<times> log_entry list)" where
  "normalize E logDoc openSearchIndex =
     (case timestampNanos logDoc of
        Inl e \<Rightarrow> Inl e
      | Inr (ts, w1) \<Rightarrow>
          (let (msg, w2) = message E logDoc;
               stream = \<lparr>Stream = labels E logDoc openSearchIndex, Values = [[ts, msg]]\<rparr>
           in Inr (\<lparr>Streams = [stream]\<rparr>, w1 @ w2)))"

text \<open>Lines 270 to 294, the delivery of one request. \<^verbatim>\<open>json.Marshal\<close> of a push request
  (string maps and string lists) has no error, so line 272 is never reached.\<close>

definition deliver :: "env \<Rightarrow> string \<Rightarrow> LokiPushRequest \<Rightarrow> push_error option \<times> event list" where
  "deliver E lokiURL pushRequest =
     (if \<not> http_NewRequest E lokiURL then (Some ErrNewRequest, [])
      else (case client_Do E lokiURL pushRequest of
              None \<Rightarrow> (Some ErrSend, [Post lokiURL pushRequest])
            | Some (status, body) \<Rightarrow>
                (if status \<noteq> 204 \<and> status \<noteq> 200 then Some (ErrStatus status body) else None,
                 [Post lokiURL pushRequest])))"

definition pushLogToLoki :: "env \<Rightarrow> string \<Rightarrow> doc \<Rightarrow> string \<Rightarrow> push_error option \<times> event list" where
  "pushLogToLoki E lokiURL logDoc openSearchIndex =
     (case normalize E logDoc openSearchIndex of
        Inl e \<Rightarrow> (Some e, [])
      | Inr (pushRequest, warnings) \<Rightarrow>
          (let (r, posts) = deliver E lokiURL pushRequest in (r, map Log warnings @ posts)))"

section \<open>The source and the sequential pipeline (\<^verbatim>\<open>queryAndPushLogs\<close>)\<close>

text \<open>
  The repository holds the pipeline twice: main.go, with the worker pool, and the file
  kept as \<^verbatim>\<open>src/unnamed/part_000\<close>, called the sequential file below, where \<^verbatim>\<open>main\<close> passes
  a callback to \<^verbatim>\<open>queryAndPushLogs\<close>. \<^verbatim>\<open>pushLogToLoki\<close> and \<^verbatim>\<open>convertGraylogLevel\<close> are the
  same in both.
\<close>

text \<open>
  The answer of the source to one request (\<^verbatim>\<open>searchReq.Do\<close>, then each \<^verbatim>\<open>scrollReq.Do\<close>):
  the call fails (\<^verbatim>\<open>err != nil\<close>), or it returns a response with a status code and a body,
  held as \<^verbatim>\<open>json.Decode\<close> reads it into a \<^verbatim>\<open>map[string]interface{}\<close> (\<open>None\<close> when
  decoding fails). The source is the list of the answers it gives, in order; a request
  past the end of the list fails, as one to a server that is gone does.
\<close>

datatype os_response =
    RequestFailed
  | HttpResponse nat "doc option"

text \<open>How a function call ends: it returns (nil or an error), or it panics. A type
  assertion without the comma-ok form panics when the value has another type.\<close>

datatype outcome =
    Returned "run_error option"
  | Panicked

record world =
  trace :: "event list"
  processedCount :: nat

type_synonym callback = "doc \<Rightarrow> world \<Rightarrow> push_error option \<times> world"

definition scrollBatchSize :: nat where
  "scrollBatchSize = 1000"

text \<open>The deferred function (main.go lines 114 to 127, lines 106 to 119 of the sequential
  file): what it logs and sends for the value \<^verbatim>\<open>scrollID\<close> holds when the function exits.\<close>

definition clearScroll :: "env \<Rightarrow> string \<Rightarrow> event list" where
  "clearScroll E scrollID =
     (if scrollID \<noteq> [] then
        [Log (ClearingScroll scrollID), ClearScroll scrollID]
        @ (if clearScroll_Do E scrollID then [] else [Log WarnClearScrollFailed])
      else [])"

text \<open>Sequential file, lines 177 to 186: the loop over the hits of one page. \<open>None\<close>: the
  loop ran to its end; \<open>Some\<close>: the function ended inside it.\<close>

fun queryAndPushLogs_hits :: "callback \<Rightarrow> json list \<Rightarrow> world \<Rightarrow> outcome option \<times> world" where
  "queryAndPushLogs_hits cb [] w = (None, w)"
| "queryAndPushLogs_hits cb (hit # hits) w =
     (case as_map hit of
        None \<Rightarrow> (Some Panicked, w)
      | Some h \<Rightarrow>
          (case as_map (index h ''_source'') of
             None \<Rightarrow> queryAndPushLogs_hits cb hits (w\<lparr>trace := trace w @ [Log (WarnNoSource hit)]\<rparr>)
           | Some logDoc \<Rightarrow>
               (case cb logDoc w of
                  (Some e, w') \<Rightarrow> (Some (Returned (Some (ErrCallback e))), w')
                | (None, w') \<Rightarrow> queryAndPushLogs_hits cb hits w')))"

text \<open>
  main.go lines 160 to 185 (the same text at lines 150 to 175 of the sequential file): what
  the body of the \<^verbatim>\<open>for\<close> loop makes of one response before it turns to the hits. Either
  the function ends here, with an outcome and the value \<^verbatim>\<open>scrollID\<close> then holds, or the page
  has hits and a cursor, the new value of \<^verbatim>\<open>scrollID\<close>.
\<close>

datatype page =
    Stop outcome string
  | Hits string "json list"

definition read_page :: "nat \<Rightarrow> doc option \<Rightarrow> string \<Rightarrow> page" where
  "read_page status body scrollID =
     (if status > 299 then
        (case body of
           None \<Rightarrow> Stop (Returned (Some ErrParseErrorResponse)) scrollID
         | Some er \<Rightarrow>
             (case as_map (index er ''error'') of
                None \<Rightarrow> Stop Panicked scrollID
              | Some em \<Rightarrow> Stop (Returned (Some (ErrSearch status (index em ''reason'')))) scrollID))
      else
        (case body of
           None \<Rightarrow> Stop (Returned (Some ErrDecodeResponse)) scrollID
         | Some searchResponse \<Rightarrow>
             (case as_map (index searchResponse ''hits'') of
                None \<Rightarrow> Stop Panicked scrollID
              | Some hm \<Rightarrow>
                  (case as_slice (index hm ''hits'') of
                     None \<Rightarrow> Stop (Returned None) scrollID
                   | Some hits \<Rightarrow>
                       if hits = [] then Stop (Returned None) scrollID
                       else
                         (let scrollID' = (case as_string (index searchResponse ''_scroll_id'') of
                                             None \<Rightarrow> [] | Some s \<Rightarrow> s)
                          in if scrollID' = [] then Stop (Returned (Some ErrMissingScrollID)) scrollID'
                             else Hits scrollID' hits)))))"

text \<open>Sequential file, lines 144 to 198: the request whose answer is awaited (it fails
  with error \<open>e\<close>: the initial search, or a scroll request), then the body of the \<^verbatim>\<open>for\<close>
  loop on its response. The result is the outcome, the last value of \<^verbatim>\<open>scrollID\<close> and
  the world.\<close>

fun queryAndPushLogs_loop ::
  "callback \<Rightarrow> run_error \<Rightarrow> os_response list \<Rightarrow> string \<Rightarrow> world \<Rightarrow> outcome \<times> string \<times> world" where
  "queryAndPushLogs_loop cb e [] scrollID w = (Returned (Some e), scrollID, w)"
| "queryAndPushLogs_loop cb e (RequestFailed # rest) scrollID w = (Returned (Some e), scrollID, w)"
| "queryAndPushLogs_loop cb e (HttpResponse status body # rest) scrollID w =
     (case read_page status body scrollID of
        Stop out sid \<Rightarrow> (out, sid, w)
      | Hits sid hits \<Rightarrow>
          (case queryAndPushLogs_hits cb hits w of
             (Some out, w') \<Rightarrow> (out, sid, w')
           | (None, w') \<Rightarrow> queryAndPushLogs_loop cb ErrScrollRequest rest sid w'))"

text \<open>\<^verbatim>\<open>queryAndPushLogs\<close>: the loop, then the deferred function (it runs on a return and
  on a panic alike).\<close>

definition queryAndPushLogs :: "env \<Rightarrow> os_response list \<Rightarrow> callback \<Rightarrow> world \<Rightarrow> outcome \<times> world" where
  "queryAndPushLogs E source cb w =
     (case queryAndPushLogs_loop cb ErrInitialSearch source [] w of
        (out, scrollID, w') \<Rightarrow> (out, w'\<lparr>trace := trace w' @ clearScroll E scrollID\<rparr>))"

text \<open>Sequential file, lines 89 to 95: the callback \<^verbatim>\<open>main\<close> passes.\<close>

definition main_callback :: "env \<Rightarrow> string \<Rightarrow> string \<Rightarrow> callback" where
  "main_callback E lokiPushURL openSearchIndex logDoc w =
     (case pushLogToLoki E lokiPushURL logDoc openSearchIndex of
        (Some e, evs) \<Rightarrow> (Some e, w\<lparr>trace := trace w @ evs\<rparr>)
      | (None, evs) \<Rightarrow> (None, w\<lparr>trace := trace w @ evs, processedCount := processedCount w + 1\<rparr>))"

text \<open>Sequential file, lines 87 to 100 of \<^verbatim>\<open>main\<close>: the run, then \<^verbatim>\<open>log.Fatalf\<close> on an error
  and the final count otherwise.\<close>

definition main_sequential :: "env \<Rightarrow> os_response list \<Rightarrow> string \<Rightarrow> string \<Rightarrow> outcome \<times> event list" where
  "main_sequential E source lokiPushURL openSearchIndex =
     (case queryAndPushLogs E source (main_callback E lokiPushURL openSearchIndex)
             \<lparr>trace = [], processedCount = 0\<rparr> of
        (Returned None, w) \<Rightarrow> (Returned None, trace w @ [Log (Finished (processedCount w))])
      | (Returned (Some e), w) \<Rightarrow> (Returned (Some e), trace w @ [Log (FatalTransfer e)])
      | (Panicked, w) \<Rightarrow> (Panicked, trace w))"

section \<open>The worker-pool pipeline (\<^verbatim>\<open>queryAndPushLogsParallel\<close>)\<close>

text \<open>
  What the goroutine of \<^verbatim>\<open>queryAndPushLogsParallel\<close> does, in order: an event of its own,
  a send on \<^verbatim>\<open>docChan\<close>, \<^verbatim>\<open>close(docChan)\<close>, \<^verbatim>\<open>wg.Wait()\<close>. Its control flow reads the
  answers of the source only, so its actions are computed first and run against the
  workers afterwards.
\<close>

datatype paction =
    Emit event
  | Send doc
  | CloseChan
  | WaitWorkers

text \<open>main.go lines 187 to 195. The result: whether the loop panicked, the actions, and
  \<^verbatim>\<open>processedCount\<close>.\<close>

fun queryAndPushLogsParallel_hits :: "json list \<Rightarrow> nat \<Rightarrow> bool \<times> paction list \<times> nat" where
  "queryAndPushLogsParallel_hits [] n = (False, [], n)"
| "queryAndPushLogsParallel_hits (hit # hits) n =
     (case as_map hit of
        None \<Rightarrow> (True, [], n)
      | Some h \<Rightarrow>
          (case as_map (index h ''_source'') of
             None \<Rightarrow>
               (case queryAndPushLogsParallel_hits hits n of
                  (p, acts, n') \<Rightarrow> (p, Emit (Log (WarnNoSource hit)) # acts, n'))
           | Some logDoc \<Rightarrow>
               (case queryAndPushLogsParallel_hits hits (n + 1) of
                  (p, acts, n') \<Rightarrow> (p, Send logDoc # acts, n'))))"

text \<open>main.go lines 152 to 205, as \<open>queryAndPushLogs_loop\<close> above. The result: the outcome,
  the last value of \<^verbatim>\<open>scrollID\<close>, the actions and \<^verbatim>\<open>processedCount\<close>.\<close>

fun queryAndPushLogsParallel_loop ::
  "run_error \<Rightarrow> os_response list \<Rightarrow> string \<Rightarrow> nat \<Rightarrow> outcome \<times> string \<times> paction list \<times> nat" where
  "queryAndPushLogsParallel_loop e [] scrollID n = (Returned (Some e), scrollID, [], n)"
| "queryAndPushLogsParallel_loop e (RequestFailed # rest) scrollID n = (Returned (Some e), scrollID, [], n)"
| "queryAndPushLogsParallel_loop e (HttpResponse status body # rest) scrollID n =
     (case read_page status body scrollID of
        Stop out sid \<Rightarrow> (out, sid, [], n)
      | Hits sid hits \<Rightarrow>
          (case queryAndPushLogsParallel_hits hits n of
             (True, acts, n') \<Rightarrow> (Panicked, sid, acts, n')
           | (False, acts, n') \<Rightarrow>
               (case queryAndPushLogsParallel_loop ErrScrollRequest rest sid n' of
                  (out, sid', acts', n'') \<Rightarrow> (out, sid', acts @ acts', n''))))"

text \<open>The goroutine of \<^verbatim>\<open>queryAndPushLogsParallel\<close> (main.go lines 114 to 211): the loop; after
  a \<^verbatim>\<open>break\<close>, lines 207 to 210; the deferred function last.\<close>

definition queryAndPushLogsParallel :: "env \<Rightarrow> os_response list \<Rightarrow> outcome \<times> paction list" where
  "queryAndPushLogsParallel E source =
     (case queryAndPushLogsParallel_loop ErrInitialSearch source [] 0 of
        (Returned None, scrollID, acts, n) \<Rightarrow>
          (Returned None,
           acts @ [CloseChan, WaitWorkers, Emit (Log (Finished n))] @ map Emit (clearScroll E scrollID))
      | (out, scrollID, acts, n) \<Rightarrow> (out, acts @ map Emit (clearScroll E scrollID)))"

text \<open>main.go lines 89 to 92 of \<^verbatim>\<open>main\<close>: \<^verbatim>\<open>log.Fatalf\<close> on an error. The process ends when
  the last action is done (by \<^verbatim>\<open>os.Exit\<close>, by the end of \<^verbatim>\<open>main\<close>, or by the panic).\<close>

definition main_parallel :: "env \<Rightarrow> os_response list \<Rightarrow> outcome \<times> paction list" where
  "main_parallel E source =
     (case queryAndPushLogsParallel E source of
        (Returned (Some e), acts) \<Rightarrow> (Returned (Some e), acts @ [Emit (Log (FatalTransfer e))])
      | (out, acts) \<Rightarrow> (out, acts))"

text \<open>main.go lines 104 to 111, one turn of a worker's loop on a document it received.\<close>

definition worker_events :: "env \<Rightarrow> string \<Rightarrow> string \<Rightarrow> doc \<Rightarrow> event list" where
  "worker_events E lokiPushURL idx logDoc =
     (case pushLogToLoki E lokiPushURL logDoc idx of
        (Some e, evs) \<Rightarrow> evs @ [Log (FailedPush e)]
      | (None, evs) \<Rightarrow> evs)"

text \<open>
  The running program: the actions the main goroutine has still to do, the buffer of
  \<^verbatim>\<open>docChan\<close> (capacity \<open>scrollBatchSize\<close>), whether it is closed, the workers (waiting on
  the channel, inside \<^verbatim>\<open>pushLogToLoki\<close> on a document, or returned), the events so far,
  and the documents on which a worker's call of \<^verbatim>\<open>pushLogToLoki\<close> has returned, in the
  order of return.
\<close>

datatype worker = Idle | Busy doc | Exited

record pool =
  script :: "paction list"
  chan :: "doc list"
  closed :: bool
  workers :: "worker list"
  ptrace :: "event list"
  handled :: "doc list"

definition pool_init :: "nat \<Rightarrow> paction list \<Rightarrow> pool" where
  "pool_init workerCount acts =
     \<lparr>script = acts, chan = [], closed = False, workers = replicate workerCount Idle,
      ptrace = [], handled = []\<rparr>"

text \<open>One step of the main goroutine: its next action. A send waits while the buffer is
  full, \<^verbatim>\<open>wg.Wait()\<close> waits until every worker has returned.\<close>

definition producer_step :: "pool \<Rightarrow> pool" where
  "producer_step c =
     (case script c of
        [] \<Rightarrow> c
      | Emit e # r \<Rightarrow> c\<lparr>script := r, ptrace := ptrace c @ [e]\<rparr>
      | Send d # r \<Rightarrow>
          if length (chan c) < scrollBatchSize then c\<lparr>script := r, chan := chan c @ [d]\<rparr> else c
      | CloseChan # r \<Rightarrow> c\<lparr>script := r, closed := True\<rparr>
      | WaitWorkers # r \<Rightarrow>
          if list_all (\<lambda>w. w = Exited) (workers c) then c\<lparr>script := r\<rparr> else c)"

text \<open>One step of worker \<open>i\<close>: it receives a document, or leaves its loop on the closed and
  drained channel, or its call of \<^verbatim>\<open>pushLogToLoki\<close> returns (the events of the call are
  recorded together, at its return). Nothing runs once the main goroutine has done its
  last action.\<close>

definition worker_step :: "env \<Rightarrow> string \<Rightarrow> string \<Rightarrow> nat \<Rightarrow> pool \<Rightarrow> pool" where
  "worker_step E lokiPushURL idx i c =
     (if script c = [] \<or> \<not> i < length (workers c) then c
      else
        (case workers c ! i of
           Idle \<Rightarrow>
             (case chan c of
                d # ds \<Rightarrow> c\<lparr>chan := ds, workers := (workers c)[i := Busy d]\<rparr>
              | [] \<Rightarrow> if closed c then c\<lparr>workers := (workers c)[i := Exited]\<rparr> else c)
         | Busy d \<Rightarrow>
             c\<lparr>workers := (workers c)[i := Idle],
               ptrace := ptrace c @ worker_events E lokiPushURL idx d,
               handled := handled c @ [d]\<rparr>
         | Exited \<Rightarrow> c))"

text \<open>A schedule names who moves next; a run follows a schedule.\<close>

datatype choice = Producer | Worker nat

fun step :: "env \<Rightarrow> string \<Rightarrow> string \<Rightarrow> choice \<Rightarrow> pool \<Rightarrow> pool" where
  "step E lokiPushURL idx Producer c = producer_step c"
| "step E lokiPushURL idx (Worker i) c = worker_step E lokiPushURL idx i c"

definition run :: "env \<Rightarrow> string \<Rightarrow> string \<Rightarrow> choice list \<Rightarrow> pool \<Rightarrow> pool" where
  "run E lokiPushURL idx sched c = fold (step E lokiPushURL idx) sched c"

text \<open>Projections of action lists, events and workers used to state properties.\<close>

definition sends :: "paction list \<Rightarrow> doc list" where
  "sends acts = concat (map (\<lambda>a. case a of Send d \<Rightarrow> [d] | _ \<Rightarrow> []) acts)"

definition emits :: "paction list \<Rightarrow> event list" where
  "emits acts = concat (map (\<lambda>a. case a of Emit e \<Rightarrow> [e] | _ \<Rightarrow> []) acts)"

definition busy :: "worker list \<Rightarrow> doc list" where
  "busy ws = concat (map (\<lambda>w. case w of Busy d \<Rightarrow> [d] | _ \<Rightarrow> []) ws)"

definition clears :: "event list \<Rightarrow> string list" where
  "clears evs = concat (map (\<lambda>ev. case ev of ClearScroll s \<Rightarrow> [s] | _ \<Rightarrow> []) evs)"

definition posts :: "event list \<Rightarrow> LokiPushRequest list" where
  "posts evs = concat (map (\<lambda>ev. case ev of Post u r \<Rightarrow> [r] | _ \<Rightarrow> []) evs)"

definition finished :: "event list \<Rightarrow> nat list" where
  "finished evs = concat (map (\<lambda>ev. case ev of Log (Finished k) \<Rightarrow> [k] | _ \<Rightarrow> []) evs)"

definition failures :: "event list \<Rightarrow> push_error list" where
  "failures evs = concat (map (\<lambda>ev. case ev of Log (FailedPush e) \<Rightarrow> [e] | _ \<Rightarrow> []) evs)"

section \<open>Invariants of the running pool\<close>

text \<open>No send follows \<^verbatim>\<open>close(docChan)\<close> in a list of actions.\<close>

fun sends_before_close :: "paction list \<Rightarrow> bool" where
  "sends_before_close [] = True"
| "sends_before_close (CloseChan # r) = (sends r = [])"
| "sends_before_close (a # r) = sends_before_close r"

text \<open>Every document sent is in one place: handled, with a worker, in the buffer, or still
  to be sent. A worker has returned only from the closed and drained channel.\<close>

definition pool_inv :: "doc multiset \<Rightarrow> pool \<Rightarrow> bool" where
  "pool_inv M c \<longleftrightarrow>
     mset (handled c) + mset (busy (workers c)) + mset (chan c) + mset (sends (script c)) = M
     \<and> (if closed c then sends (script c) = [] else sends_before_close (script c))
     \<and> (Exited \<in> set (workers c) \<longrightarrow> closed c \<and> chan c = [])"

text \<open>Once the main goroutine is past \<open>wg.Wait()\<close>, every worker has returned.\<close>

definition waited :: "pool \<Rightarrow> bool" where
  "waited c \<longleftrightarrow> WaitWorkers \<in> set (script c) \<or> list_all (\<lambda>w. w = Exited) (workers c)"

text \<open>The events of the workers in the trace are those of the documents handled.\<close>

definition trace_inv :: "env \<Rightarrow> string \<Rightarrow> string \<Rightarrow> pool \<Rightarrow> bool" where
  "trace_inv E url idx c \<longleftrightarrow>
     failures (emits (script c)) = [] \<and> posts (emits (script c)) = []
     \<and> failures (ptrace c) = failures (concat (map (worker_events E url idx) (handled c)))
     \<and> posts (ptrace c) = posts (concat (map (worker_events E url idx) (handled c)))"

text \<open>With one worker the documents are handled in the order they were sent.\<close>

definition order_inv :: "doc list \<Rightarrow> pool \<Rightarrow> bool" where
  "order_inv ds c \<longleftrightarrow>
     length (workers c) = 1
     \<and> handled c @ busy (workers c) @ chan c @ sends (script c) = ds"

text \<open>The events of the sequential pipeline on the actions of the worker-pool pipeline,
  when every call of \<^verbatim>\<open>pushLogToLoki\<close> returns nil: each send becomes the call itself.\<close>

definition sequential_events :: "env \<Rightarrow> string \<Rightarrow> string \<Rightarrow> paction list \<Rightarrow> event list" where
  "sequential_events E url idx acts =
     concat (map (\<lambda>a. case a of Emit e \<Rightarrow> [e] | Send d \<Rightarrow> snd (pushLogToLoki E url d idx) | _ \<Rightarrow> []) acts)"

text \<open>Actions of the loop: no close, no wait, and no event that a worker or the end of
  the run logs.\<close>

definition plain :: "paction list \<Rightarrow> bool" where
  "plain acts \<longleftrightarrow>
     CloseChan \<notin> set acts \<and> WaitWorkers \<notin> set acts
     \<and> failures (emits acts) = [] \<and> posts (emits acts) = [] \<and> finished (emits acts) = []"

text \<open>The final count is logged by the main goroutine alone.\<close>

definition finished_inv :: "nat list \<Rightarrow> pool \<Rightarrow> bool" where
  "finished_inv fs c \<longleftrightarrow> finished (ptrace c) @ finished (emits (script c)) = fs"

text \<open>
  A bound on the steps a run has left. A document still to be sent weighs 4 (its action
  and 3), one in the buffer 2, a worker inside \<^verbatim>\<open>pushLogToLoki\<close> 2, one waiting on the
  channel 1, one that has returned 0; every other action weighs 1.
\<close>

definition worker_weight :: "worker \<Rightarrow> nat" where
  "worker_weight w = (case w of Idle \<Rightarrow> 1 | Busy d \<Rightarrow> 2 | Exited \<Rightarrow> 0)"

definition pool_measure :: "pool \<Rightarrow> nat" where
  "pool_measure c =
     length (script c) + 3 * length (sends (script c)) + 2 * length (chan c)
     + sum_list (map worker_weight (workers c))"

text \<open>In a list of actions, \<^verbatim>\<open>close(docChan)\<close> comes before \<^verbatim>\<open>wg.Wait()\<close>; in a running pool,
  the channel is closed by the time the main goroutine waits.\<close>

fun close_before_wait :: "paction list \<Rightarrow> bool" where
  "close_before_wait [] = True"
| "close_before_wait (CloseChan # r) = True"
| "close_before_wait (WaitWorkers # r) = False"
| "close_before_wait (a # r) = close_before_wait r"

definition closing :: "pool \<Rightarrow> bool" where
  "closing c \<longleftrightarrow> closed c \<or> close_before_wait (script c)"

text \<open>A schedule in which every step is a move: the goroutine named is not blocked (a
  blocked goroutine leaves the pool as it is).\<close>

fun moves :: "env \<Rightarrow> string \<Rightarrow> string \<Rightarrow> choice list \<Rightarrow> pool \<Rightarrow> bool" where
  "moves E lokiPushURL idx [] c = True"
| "moves E lokiPushURL idx (ch # sched) c =
     (step E lokiPushURL idx ch c \<noteq> c \<and> moves E lokiPushURL idx sched (step E lokiPushURL idx ch c))"

section \<open>Example inputs\<close>

definition example_env :: env where
  "example_env =
     \<lparr>json_Marshal = (\<lambda>d. ''{...}''),
      unicode_ToLower = (\<lambda>s. s),
      http_NewRequest = (\<lambda>u. True),
      client_Do = (\<lambda>u r. Some (204, [])),
      clearScroll_Do = (\<lambda>s. True)\<rparr>"

definition example_doc :: doc where
  "example_doc =
     [(''timestamp'', JStr ''2024-02-14 20:30:55.410''),
      (''message'', JStr ''disk full''),
      (''level'', JNum (39 / 10)),
      (''host'', JStr ''web-1''),
      (''app'', JNum 7)]"

definition example_doc_rfc :: doc where
  "example_doc_rfc =
     [(''timestamp'', JStr ''2024-02-14T20:30:55.41+02:00''), (''level'', JStr ''WARN'')]"

definition example_doc_2300 :: doc where
  "example_doc_2300 = [(''timestamp'', JStr ''2300-01-01 00:00:00.000''), (''message'', JStr ''x'')]"

definition example_doc_nomsg :: doc where
  "example_doc_nomsg =
     [(''timestamp'', JStr ''2024-02-14 20:30:55.410''), (''message'', JNum 5), (''host'', JStr ''web-1'')]"

definition example_hit :: "doc \<Rightarrow> json" where
  "example_hit d = JObj [(''_id'', JStr ''1''), (''_source'', JObj d)]"

definition example_page :: "string \<Rightarrow> json list \<Rightarrow> os_response" where
  "example_page sid hits =
     HttpResponse 200 (Some [(''_scroll_id'', JStr sid), (''hits'', JObj [(''hits'', JArr hits)])])"

definition example_page_no_cursor :: "json list \<Rightarrow> os_response" where
  "example_page_no_cursor hits = HttpResponse 200 (Some [(''hits'', JObj [(''hits'', JArr hits)])])"

definition example_source_no_cursor :: "os_response list" where
  "example_source_no_cursor =
     [example_page ''abc'' [example_hit example_doc],
      example_page_no_cursor [example_hit example_doc_nomsg],
      example_page ''abd'' [example_hit example_doc_rfc]]"

definition example_env_500 :: env where
  "example_env_500 = example_env\<lparr>client_Do := (\<lambda>u r. Some (500, ''boom''))\<rparr>"

definition example_doc_bad_timestamp :: doc where
  "example_doc_bad_timestamp = [(''timestamp'', JNum 5), (''message'', JStr ''x'')]"

definition example_source_mixed :: "os_response list" where
  "example_source_mixed =
     [example_page ''abc''
        [example_hit example_doc, JObj [(''_id'', JStr ''2'')], example_hit example_doc_bad_timestamp],
      example_page ''abd'' []]"

definition example_source_good :: "os_response list" where
  "example_source_good =
     [example_page ''abc'' [example_hit example_doc, JObj [(''_id'', JStr ''2'')]],
      example_page ''abd'' [example_hit example_doc_rfc],
      example_page ''abe'' []]"

text \<open>An endpoint that cannot be reached for a request labelled \<^verbatim>\<open>log_level=error\<close>, answers
  500 to one with another level, and 204 to one without the label.\<close>

definition example_env_flaky :: env where
  "example_env_flaky =
     example_env\<lparr>client_Do := (\<lambda>u r.
       case map_of (concat (map Stream (Streams r))) ''log_level'' of
         Some l \<Rightarrow> if l = ''error'' then None else Some (500, ''boom'')
       | None \<Rightarrow> Some (204, []))\<rparr>"

definition example_source_failures :: "os_response list" where
  "example_source_failures =
     [example_page ''abc''
        [example_hit example_doc_nomsg, JObj [(''_id'', JStr ''2'')], example_hit example_doc,
         example_hit example_doc_bad_timestamp, example_hit example_doc_rfc],
      example_page ''abd'' []]"

definition example_schedule_two :: "choice list" where
  "example_schedule_two =
     [Producer, Worker 0, Producer, Producer, Worker 1, Producer, Producer, Worker 0, Worker 0,
      Worker 0, Worker 1, Worker 1, Producer, Worker 0, Worker 1, Worker 1, Producer, Producer,
      Producer, Producer]"

definition example_schedule_one :: "choice list" where
  "example_schedule_one =
     [Producer, Producer, Producer, Worker 0, Worker 0, Worker 0, Producer, Worker 0, Worker 0,
      Producer, Producer, Producer, Producer]"

section \<open>Properties of the normaliser\<close>

lemma normalize_shape:
  "normalize E d idx =
     (case timestampNanos d of
        Inl e \<Rightarrow> Inl e
      | Inr (ts, w1) \<Rightarrow>
          Inr (\<lparr>Streams = [\<lparr>Stream = labels E d idx, Values = [[ts, fst (message E d)]]\<rparr>]\<rparr>,
               w1 @ snd (message E d)))"
  by (simp add: normalize_def split: sum.splits prod.splits)

lemma digit_digit_char: "0 \<le> d \<Longrightarrow> d < 10 \<Longrightarrow> digit (digit_char d) \<and> digit_val (digit_char d) = d"
proof -
  assume "0 \<le> d" "d < 10"
  then have "d = 0 \<or> d = 1 \<or> d = 2 \<or> d = 3 \<or> d = 4 \<or> d = 5 \<or> d = 6 \<or> d = 7 \<or> d = 8 \<or> d = 9"
    by arith
  then show ?thesis by (auto simp: digit_def digit_val_def digit_char_def)
qed

lemma leadingInt_formatBits:
  "0 \<le> n \<Longrightarrow> leadingInt x (formatBits n @ s) = leadingInt (x * 10 ^ length (formatBits n) + n) s"
proof (induction n arbitrary: x s rule: formatBits.induct)
  case (1 n)
  show ?case
  proof (cases "n < 10")
    case True
    with 1(2) show ?thesis
      by (subst (1 2) formatBits.simps) (simp add: digit_digit_char)
  next
    case False
    then have d: "0 \<le> n div 10" "0 \<le> n mod 10" "n mod 10 < 10" using 1(2) by auto
    have fb: "formatBits n = formatBits (n div 10) @ [digit_char (n mod 10)]"
      using False by (subst formatBits.simps) simp
    show ?thesis
      using 1(1)[OF False d(1), of x "digit_char (n mod 10) # s"] d
      by (simp add: fb digit_digit_char algebra_simps)
  qed
qed

lemma formatBits_nonempty: "formatBits n \<noteq> []"
  by (subst formatBits.simps) simp

lemma hd_formatBits_digit: "0 \<le> n \<Longrightarrow> digit (hd (formatBits n))"
proof (induction n rule: formatBits.induct)
  case (1 n)
  show ?case
  proof (cases "n < 10")
    case True
    with 1(2) show ?thesis by (subst formatBits.simps) (simp add: digit_digit_char)
  next
    case False
    then have "0 \<le> n div 10" using 1(2) by auto
    with 1(1)[OF False] False show ?thesis
      by (subst formatBits.simps) (simp add: formatBits_nonempty)
  qed
qed

lemma digit_not_sign: "digit c \<Longrightarrow> c \<noteq> CHR ''-'' \<and> c \<noteq> CHR ''+''"
  by (auto simp: digit_def)

lemma leadingInt_formatBits0: "0 \<le> n \<Longrightarrow> leadingInt 0 (formatBits n) = (n, [])"
  using leadingInt_formatBits [of n 0 "[]"] by simp

lemma atoi_FormatInt: "atoi (FormatInt i) = Some i"
proof (cases "i < 0")
  case True
  then show ?thesis
    by (simp add: atoi_def FormatInt_def leadingInt_formatBits0)
next
  case False
  then have "digit (hd (formatBits i))" by (simp add: hd_formatBits_digit)
  then have "hd (formatBits i) \<noteq> CHR ''-''" "hd (formatBits i) \<noteq> CHR ''+''"
    using digit_not_sign by blast+
  with False show ?thesis
    by (simp add: atoi_def FormatInt_def leadingInt_formatBits0 formatBits_nonempty)
qed

lemma wrap_int64_id: "- (2 ^ 63) \<le> x \<Longrightarrow> x < 2 ^ 63 \<Longrightarrow> wrap_int64 x = x"
  by (simp add: wrap_int64_def)

lemma trunc_towards_zero:
  "\<bar>of_int (trunc x)\<bar> \<le> \<bar>x\<bar> \<and> \<bar>x - of_int (trunc x)\<bar> < 1"
proof (cases "x < 0")
  case True
  define f where "f = \<lfloor>- x\<rfloor>"
  have a: "of_int f \<le> - x" "- x < of_int f + 1"
    unfolding f_def by linarith+
  have "0 \<le> f" unfolding f_def using True by simp
  then have b: "(0::rat) \<le> of_int f" by simp
  have t: "(of_int (trunc x) :: rat) = - of_int f"
    using True by (simp add: trunc_def f_def)
  show ?thesis unfolding t using a b True by linarith
next
  case False
  define f where "f = \<lfloor>x\<rfloor>"
  have a: "of_int f \<le> x" "x < of_int f + 1"
    unfolding f_def by linarith+
  have "0 \<le> f" unfolding f_def using False by simp
  then have b: "(0::rat) \<le> of_int f" by simp
  have t: "(of_int (trunc x) :: rat) = of_int f"
    using False by (simp add: trunc_def f_def)
  show ?thesis unfolding t using a b False by linarith
qed

lemma convertGraylogLevel_unknown: "level < 0 \<or> 7 < level \<Longrightarrow> convertGraylogLevel level = ''unknown''"
  by (auto simp: convertGraylogLevel_def)

lemma level_of_float64: "convertGraylogLevel (float64_to_int x) = convertGraylogLevel (trunc x)"
  by (auto simp: float64_to_int_def Let_def convertGraylogLevel_unknown)

lemma labels_dom:
  "dom (map_of (labels E d idx)) =
     {''app'', ''source_index'', ''data_origin''}
     \<union> (if \<exists>s. index d ''app'' = JStr s then {''app_name''} else {})
     \<union> (if (\<exists>x. index d ''level'' = JNum x) \<or> (\<exists>s. index d ''level'' = JStr s) then {''log_level''} else {})
     \<union> (if \<exists>s. index d ''host'' = JStr s then {''host''} else {})"
  by (cases "index d ''app''"; cases "index d ''level''"; cases "index d ''host''")
     (auto simp: labels_def)

lemma normalize_Inr_labels:
  "normalize E d idx = Inr (req, w) \<Longrightarrow> map Stream (Streams req) = [labels E d idx]"
  by (auto simp: normalize_shape split: sum.splits prod.splits)

lemma labels_level_num:
  "index d ''level'' = JNum x \<Longrightarrow>
   map_of (labels E d idx) ''log_level'' = Some (convertGraylogLevel (float64_to_int x))"
  by (cases "index d ''host''") (auto simp: labels_def Let_def update_conv')

lemma labels_level_str:
  "index d ''level'' = JStr s \<Longrightarrow> map_of (labels E d idx) ''log_level'' = Some (strings_ToLower E s)"
  by (cases "index d ''host''") (auto simp: labels_def Let_def update_conv')

lemma labels_fixed:
  "map_of (labels E d idx) ''app'' = Some ''graylog-forwarder'' \<and>
   map_of (labels E d idx) ''source_index'' = Some idx \<and>
   map_of (labels E d idx) ''data_origin'' = Some ''historical''"
  by (cases "index d ''app''"; cases "index d ''level''"; cases "index d ''host''")
     (auto simp: labels_def Let_def update_conv')

lemma float64_to_int_of_int:
  "- (2 ^ 63) \<le> n \<Longrightarrow> n < 2 ^ 63 \<Longrightarrow> float64_to_int (of_int n) = n"
  by (simp add: float64_to_int_def trunc_def)

lemma ascii_lower_table:
  "ascii_lower c =
     (case map_of (zip ''ABCDEFGHIJKLMNOPQRSTUVWXYZ'' ''abcdefghijklmnopqrstuvwxyz'') c of
        Some l \<Rightarrow> l | None \<Rightarrow> c)"
proof -
  have "\<forall>c\<in>set (Enum.enum :: char list). ascii_lower c =
     (case map_of (zip ''ABCDEFGHIJKLMNOPQRSTUVWXYZ'' ''abcdefghijklmnopqrstuvwxyz'') c of
        Some l \<Rightarrow> l | None \<Rightarrow> c)"
    by code_simp
  then show ?thesis by (simp only: enum_UNIV UNIV_I)
qed

text \<open>
  Claim C7. In the push request of a normalised document, a numeric \<^verbatim>\<open>level\<close> gives the
  label \<^verbatim>\<open>log_level\<close> the entry of the severity table for the number converted to int
  (0 emergency, 1 alert, 2 critical, 3 error, 4 warning, 5 notice, 6 info, 7 debug,
  anything else unknown; so 3 gives error and 99 gives unknown), and a string \<^verbatim>\<open>level\<close>
  gives it \<^verbatim>\<open>strings.ToLower\<close> of the string: on a string of ASCII bytes each of the
  letters A to Z is replaced by its lower-case letter and every other byte is kept, so
  \<^verbatim>\<open>WARN\<close> gives \<^verbatim>\<open>warn\<close> and the string \<^verbatim>\<open>3\<close> stays \<^verbatim>\<open>3\<close> (it is not looked up in the table);
  on any other string it is the library's Unicode mapping.
\<close>

theorem C7_log_level_label:
  assumes "normalize E logDoc idx = Inr (req, w)"
  shows "map Stream (Streams req) = [labels E logDoc idx]
     \<and> (\<forall>x. index logDoc ''level'' = JNum x \<longrightarrow>
           map_of (labels E logDoc idx) ''log_level'' = Some (convertGraylogLevel (float64_to_int x)))
     \<and> (\<forall>s. index logDoc ''level'' = JStr s \<longrightarrow>
           map_of (labels E logDoc idx) ''log_level'' = Some (strings_ToLower E s))
     \<and> map convertGraylogLevel [0, 1, 2, 3, 4, 5, 6, 7] =
           [''emergency'', ''alert'', ''critical'', ''error'', ''warning'', ''notice'', ''info'', ''debug'']
     \<and> (\<forall>n. n < 0 \<or> 7 < n \<longrightarrow> convertGraylogLevel n = ''unknown'')
     \<and> (\<forall>n. - (2 ^ 63) \<le> n \<and> n < 2 ^ 63 \<longrightarrow> float64_to_int (of_int n) = n)
     \<and> convertGraylogLevel (float64_to_int 3) = ''error''
     \<and> convertGraylogLevel (float64_to_int 99) = ''unknown''
     \<and> (\<forall>s. list_all (\<lambda>c. (of_char c :: nat) < 128) s \<longrightarrow>
           strings_ToLower E s =
             map (\<lambda>c. case map_of (zip ''ABCDEFGHIJKLMNOPQRSTUVWXYZ'' ''abcdefghijklmnopqrstuvwxyz'') c of
                         Some l \<Rightarrow> l | None \<Rightarrow> c) s)
     \<and> (\<forall>s. \<not> list_all (\<lambda>c. (of_char c :: nat) < 128) s \<longrightarrow> strings_ToLower E s = unicode_ToLower E s)
     \<and> strings_ToLower E ''WARN'' = ''warn''
     \<and> strings_ToLower E ''Error-42 x'' = ''error-42 x''
     \<and> strings_ToLower E ''3'' = ''3''"
proof -
  have tab: "map convertGraylogLevel [0, 1, 2, 3, 4, 5, 6, 7] =
      [''emergency'', ''alert'', ''critical'', ''error'', ''warning'', ''notice'', ''info'', ''debug'']"
    by (simp add: convertGraylogLevel_def)
  have e3: "convertGraylogLevel (float64_to_int 3) = ''error''"
    using float64_to_int_of_int [of 3] by (simp add: convertGraylogLevel_def)
  have e99: "convertGraylogLevel (float64_to_int 99) = ''unknown''"
    using float64_to_int_of_int [of 99] by (simp add: convertGraylogLevel_def)
  have low: "strings_ToLower E s =
      map (\<lambda>c. case map_of (zip ''ABCDEFGHIJKLMNOPQRSTUVWXYZ'' ''abcdefghijklmnopqrstuvwxyz'') c of
                  Some l \<Rightarrow> l | None \<Rightarrow> c) s"
    if "list_all (\<lambda>c. (of_char c :: nat) < 128) s" for s
  proof -
    have "ascii_lower =
        (\<lambda>c. case map_of (zip ''ABCDEFGHIJKLMNOPQRSTUVWXYZ'' ''abcdefghijklmnopqrstuvwxyz'') c of
               Some l \<Rightarrow> l | None \<Rightarrow> c)"
      by (rule ext) (rule ascii_lower_table)
    with that show ?thesis by (simp only: strings_ToLower_def if_True)
  qed
  have uni: "strings_ToLower E s = unicode_ToLower E s"
    if "\<not> list_all (\<lambda>c. (of_char c :: nat) < 128) s" for s
    using that by (simp only: strings_ToLower_def if_False)
  have x1: "strings_ToLower E ''WARN'' = ''warn''"
    by (simp add: strings_ToLower_def ascii_lower_table)
  have x2: "strings_ToLower E ''Error-42 x'' = ''error-42 x''"
    by (simp add: strings_ToLower_def ascii_lower_table)
  have x3: "strings_ToLower E ''3'' = ''3''"
    by (simp add: strings_ToLower_def ascii_lower_table)
  have num: "\<forall>x. index logDoc ''level'' = JNum x \<longrightarrow>
      map_of (labels E logDoc idx) ''log_level'' = Some (convertGraylogLevel (float64_to_int x))"
    by (simp add: labels_level_num)
  have str: "\<forall>s. index logDoc ''level'' = JStr s \<longrightarrow>
      map_of (labels E logDoc idx) ''log_level'' = Some (strings_ToLower E s)"
    by (simp add: labels_level_str)
  have unk: "\<forall>n. n < 0 \<or> 7 < n \<longrightarrow> convertGraylogLevel n = ''unknown''"
    by (simp add: convertGraylogLevel_unknown)
  have f2i: "\<forall>n. - (2 ^ 63) \<le> n \<and> n < 2 ^ 63 \<longrightarrow> float64_to_int (of_int n) = n"
    by (simp add: float64_to_int_of_int)
  from low have low': "\<forall>s. list_all (\<lambda>c. (of_char c :: nat) < 128) s \<longrightarrow>
           strings_ToLower E s =
             map (\<lambda>c. case map_of (zip ''ABCDEFGHIJKLMNOPQRSTUVWXYZ'' ''abcdefghijklmnopqrstuvwxyz'') c of
                         Some l \<Rightarrow> l | None \<Rightarrow> c) s" by blast
  from uni have uni': "\<forall>s. \<not> list_all (\<lambda>c. (of_char c :: nat) < 128) s \<longrightarrow>
      strings_ToLower E s = unicode_ToLower E s" by blast
  show ?thesis
    by (intro conjI) (rule normalize_Inr_labels [OF assms] num str tab unk f2i e3 e99 low' uni' x1 x2 x3)+
qed

lemma example_doc_timestamp: "timestampNanos example_doc = Inr (''1707942655410000000'', [])"
  by code_simp

lemma example_doc_normalize:
  "normalize example_env example_doc ''logs'' =
     Inr (\<lparr>Streams = [\<lparr>Stream = labels example_env example_doc ''logs'',
                        Values = [[''1707942655410000000'', ''disk full'']]\<rparr>]\<rparr>, [])"
  by (simp add: normalize_shape example_doc_timestamp)
     (simp add: message_def index_def example_doc_def)

text \<open>Claim C7, witness: a document with the numeric level 3.9 and one with the string
  level \<^verbatim>\<open>WARN\<close>.\<close>

theorem C7_log_level_label_witness:
  "map_of (labels example_env example_doc ''logs'') ''log_level'' = Some ''error''
   \<and> map_of (labels example_env example_doc_rfc ''logs'') ''log_level'' = Some ''warn''"
proof -
  have l: "index example_doc ''level'' = JNum (39 / 10)"
    by (simp add: index_def example_doc_def)
  have ev: "convertGraylogLevel (float64_to_int (39 / 10)) = ''error''" by code_simp
  have a: "\<forall>x. index example_doc ''level'' = JNum x \<longrightarrow>
      map_of (labels example_env example_doc ''logs'') ''log_level'' = Some (convertGraylogLevel (float64_to_int x))"
    by (rule conjunct1 [OF conjunct2 [OF C7_log_level_label [OF example_doc_normalize]]])
  from a l have "map_of (labels example_env example_doc ''logs'') ''log_level'' =
      Some (convertGraylogLevel (float64_to_int (39 / 10)))" by blast
  with ev have num: "map_of (labels example_env example_doc ''logs'') ''log_level'' = Some ''error''"
    by simp
  have "\<not> isl (normalize example_env example_doc_rfc ''logs'')" by code_simp
  then obtain req w where n: "normalize example_env example_doc_rfc ''logs'' = Inr (req, w)"
    by (cases "normalize example_env example_doc_rfc ''logs''") auto
  have ls: "index example_doc_rfc ''level'' = JStr ''WARN''"
    by (simp add: index_def example_doc_rfc_def)
  note t = C7_log_level_label [OF n]
  have b: "\<forall>s. index example_doc_rfc ''level'' = JStr s \<longrightarrow>
      map_of (labels example_env example_doc_rfc ''logs'') ''log_level'' = Some (strings_ToLower example_env s)"
    by (rule conjunct1 [OF conjunct2 [OF conjunct2 [OF t]]])
  have c: "strings_ToLower example_env ''WARN'' = ''warn''"
    using t by (elim conjE)
  from b ls have "map_of (labels example_env example_doc_rfc ''logs'') ''log_level'' =
      Some (strings_ToLower example_env ''WARN'')" by blast
  with c have str: "map_of (labels example_env example_doc_rfc ''logs'') ''log_level'' = Some ''warn''"
    by simp
  from num str show ?thesis by simp
qed

lemma normalize_isl: "isl (normalize E d idx) = isl (timestampNanos d)"
  by (simp add: normalize_shape split: sum.splits prod.splits)

lemma timestampNanos_isl:
  "isl (timestampNanos d) \<longleftrightarrow>
     (\<forall>s. index d ''timestamp'' \<noteq> JStr s) \<or>
     (\<exists>s. index d ''timestamp'' = JStr s \<and> parse_graylogTimestampFormat s = None
          \<and> parse_RFC3339Nano s = None)"
  by (cases "index d ''timestamp''") (auto simp: timestampNanos_def split: option.splits)

lemma timestampNanos_custom:
  "index d ''timestamp'' = JStr s \<Longrightarrow> parse_graylogTimestampFormat s = Some t \<Longrightarrow>
   timestampNanos d = Inr (FormatInt (UnixNano t), [])"
  by (simp add: timestampNanos_def)

lemma timestampNanos_fallback:
  "index d ''timestamp'' = JStr s \<Longrightarrow> parse_graylogTimestampFormat s = None \<Longrightarrow>
   parse_RFC3339Nano s = Some t \<Longrightarrow>
   timestampNanos d = Inr (FormatInt (UnixNano t), [WarnTimestampFallback s])"
  by (simp add: timestampNanos_def)

lemma message_warnings: "WarnTimestampFallback s \<notin> set (snd (message E d))"
  by (simp add: message_def split: option.splits)

lemma UnixNano_in_range:
  "- (2 ^ 63) \<le> epochNanos t \<Longrightarrow> epochNanos t < 2 ^ 63 \<Longrightarrow> UnixNano t = epochNanos t"
  by (simp add: UnixNano_def epochNanos_def wrap_int64_def)

text \<open>
  Claim C5, as amended. The record-level result of normalisation is an error exactly when
  the \<^verbatim>\<open>timestamp\<close> field is missing, is not a string, or is parsed by neither layout. The
  custom layout is tried first: when it parses, its instant is used and no fallback warning
  is logged; only when it fails is RFC3339Nano tried, and its success is logged as a
  warning. The output timestamp is the decimal string (read back by \<open>atoi\<close>) of the
  instant's nanoseconds since the epoch reduced to a signed 64-bit integer: the exact
  nanosecond epoch whenever that fits int64, a wrapped value otherwise.
\<close>

theorem C5_timestamp_parsing:
  "(isl (normalize E logDoc idx) \<longleftrightarrow>
      (\<forall>s. index logDoc ''timestamp'' \<noteq> JStr s) \<or>
      (\<exists>s. index logDoc ''timestamp'' = JStr s \<and> parse_graylogTimestampFormat s = None
           \<and> parse_RFC3339Nano s = None))
   \<and> (\<forall>s t. index logDoc ''timestamp'' = JStr s \<and> parse_graylogTimestampFormat s = Some t \<longrightarrow>
         (\<exists>req w. normalize E logDoc idx = Inr (req, w)
            \<and> map Values (Streams req) = [[[FormatInt (UnixNano t), fst (message E logDoc)]]]
            \<and> WarnTimestampFallback s \<notin> set w))
   \<and> (\<forall>s t. index logDoc ''timestamp'' = JStr s \<and> parse_graylogTimestampFormat s = None
            \<and> parse_RFC3339Nano s = Some t \<longrightarrow>
         (\<exists>req w. normalize E logDoc idx = Inr (req, w)
            \<and> map Values (Streams req) = [[[FormatInt (UnixNano t), fst (message E logDoc)]]]
            \<and> WarnTimestampFallback s \<in> set w))
   \<and> (\<forall>t. UnixNano t = wrap_int64 (epochNanos t))
   \<and> (\<forall>t. - (2 ^ 63) \<le> epochNanos t \<and> epochNanos t < 2 ^ 63 \<longrightarrow> UnixNano t = epochNanos t)
   \<and> (\<forall>i. atoi (FormatInt i) = Some i)"
proof -
  have a: "isl (normalize E logDoc idx) \<longleftrightarrow>
      (\<forall>s. index logDoc ''timestamp'' \<noteq> JStr s) \<or>
      (\<exists>s. index logDoc ''timestamp'' = JStr s \<and> parse_graylogTimestampFormat s = None
           \<and> parse_RFC3339Nano s = None)"
    by (simp only: normalize_isl timestampNanos_isl)
  have b: "\<forall>s t. index logDoc ''timestamp'' = JStr s \<and> parse_graylogTimestampFormat s = Some t \<longrightarrow>
         (\<exists>req w. normalize E logDoc idx = Inr (req, w)
            \<and> map Values (Streams req) = [[[FormatInt (UnixNano t), fst (message E logDoc)]]]
            \<and> WarnTimestampFallback s \<notin> set w)"
    by (auto simp: normalize_shape timestampNanos_custom message_warnings)
  have c: "\<forall>s t. index logDoc ''timestamp'' = JStr s \<and> parse_graylogTimestampFormat s = None
            \<and> parse_RFC3339Nano s = Some t \<longrightarrow>
         (\<exists>req w. normalize E logDoc idx = Inr (req, w)
            \<and> map Values (Streams req) = [[[FormatInt (UnixNano t), fst (message E logDoc)]]]
            \<and> WarnTimestampFallback s \<in> set w)"
    by (auto simp: normalize_shape timestampNanos_fallback)
  have d: "\<forall>t. UnixNano t = wrap_int64 (epochNanos t)"
    by (simp add: UnixNano_def epochNanos_def)
  have e: "\<forall>t. - (2 ^ 63) \<le> epochNanos t \<and> epochNanos t < 2 ^ 63 \<longrightarrow> UnixNano t = epochNanos t"
    using UnixNano_in_range by blast
  show ?thesis
    using a b c d e atoi_FormatInt by blast
qed

text \<open>Claim C5, witness: a document whose timestamp only the second layout parses.\<close>

theorem C5_timestamp_parsing_witness:
  "\<exists>req w. normalize example_env example_doc_rfc ''logs'' = Inr (req, w)
      \<and> map Values (Streams req) = [[[''1707935455410000000'', ''{...}'']]]
      \<and> WarnTimestampFallback ''2024-02-14T20:30:55.41+02:00'' \<in> set w"
proof -
  have i: "index example_doc_rfc ''timestamp'' = JStr ''2024-02-14T20:30:55.41+02:00''"
    by (simp add: index_def example_doc_rfc_def)
  have p1: "parse_graylogTimestampFormat ''2024-02-14T20:30:55.41+02:00'' = None"
    by code_simp
  have p2: "parse_RFC3339Nano ''2024-02-14T20:30:55.41+02:00'' =
      Some \<lparr>unixSec = 1707935455, nsec = 410000000\<rparr>"
    by code_simp
  have f: "FormatInt (UnixNano \<lparr>unixSec = 1707935455, nsec = 410000000\<rparr>) = ''1707935455410000000''"
    by code_simp
  have m: "fst (message example_env example_doc_rfc) = ''{...}''"
    by (simp add: message_def index_def example_doc_rfc_def example_env_def)
  have "\<forall>s t. index example_doc_rfc ''timestamp'' = JStr s \<and> parse_graylogTimestampFormat s = None
            \<and> parse_RFC3339Nano s = Some t \<longrightarrow>
         (\<exists>req w. normalize example_env example_doc_rfc ''logs'' = Inr (req, w)
            \<and> map Values (Streams req) =
                [[[FormatInt (UnixNano t), fst (message example_env example_doc_rfc)]]]
            \<and> WarnTimestampFallback s \<in> set w)"
    using C5_timestamp_parsing [of example_env example_doc_rfc "''logs''"] by blast
  with i p1 p2 have "\<exists>req w. normalize example_env example_doc_rfc ''logs'' = Inr (req, w)
            \<and> map Values (Streams req) =
                [[[FormatInt (UnixNano \<lparr>unixSec = 1707935455, nsec = 410000000\<rparr>),
                   fst (message example_env example_doc_rfc)]]]
            \<and> WarnTimestampFallback ''2024-02-14T20:30:55.41+02:00'' \<in> set w"
    by blast
  then show ?thesis by (simp only: f m)
qed

text \<open>
  Claim C5 as stated fails: the timestamp \<^verbatim>\<open>2300-01-01 00:00:00.000\<close> parses with the custom
  layout, its nanosecond epoch is 10413792000000000000, and the output timestamp is
  \<^verbatim>\<open>-8032952073709551616\<close>.
\<close>

theorem C5_timestamp_overflow_counterexample:
  "parse_graylogTimestampFormat ''2300-01-01 00:00:00.000'' = Some \<lparr>unixSec = 10413792000, nsec = 0\<rparr>
   \<and> FormatInt (epochNanos \<lparr>unixSec = 10413792000, nsec = 0\<rparr>) = ''10413792000000000000''
   \<and> normalize example_env example_doc_2300 ''logs'' =
        Inr (\<lparr>Streams = [\<lparr>Stream = labels example_env example_doc_2300 ''logs'',
                           Values = [[''-8032952073709551616'', ''x'']]\<rparr>]\<rparr>, [])
   \<and> ''-8032952073709551616'' \<noteq> ''10413792000000000000''"
proof -
  have p: "parse_graylogTimestampFormat ''2300-01-01 00:00:00.000'' =
      Some \<lparr>unixSec = 10413792000, nsec = 0\<rparr>"
    by code_simp
  have f: "FormatInt (epochNanos \<lparr>unixSec = 10413792000, nsec = 0\<rparr>) = ''10413792000000000000''"
    by code_simp
  have t: "timestampNanos example_doc_2300 = Inr (''-8032952073709551616'', [])"
    by code_simp
  have n: "normalize example_env example_doc_2300 ''logs'' =
        Inr (\<lparr>Streams = [\<lparr>Stream = labels example_env example_doc_2300 ''logs'',
                           Values = [[''-8032952073709551616'', ''x'']]\<rparr>]\<rparr>, [])"
    by (simp add: normalize_shape t) (simp add: message_def index_def example_doc_2300_def)
  show ?thesis using p f n by simp
qed

text \<open>
  Claim C6. A document whose \<^verbatim>\<open>timestamp\<close> field is the string \<^verbatim>\<open>2024-02-14 20:30:55.410\<close>
  is normalised, whatever its other fields, to the timestamp string \<^verbatim>\<open>1707942655410000000\<close>:
  the instant 2024-02-14T20:30:55.410 in UTC, in nanoseconds since the epoch.
\<close>

theorem C6_graylog_timestamp_example:
  assumes "index logDoc ''timestamp'' = JStr ''2024-02-14 20:30:55.410''"
  shows "parse_graylogTimestampFormat ''2024-02-14 20:30:55.410'' =
           Some \<lparr>unixSec = 1707942655, nsec = 410000000\<rparr>
     \<and> Date 2024 2 14 20 30 55 410000000 = \<lparr>unixSec = 1707942655, nsec = 410000000\<rparr>
     \<and> epochNanos \<lparr>unixSec = 1707942655, nsec = 410000000\<rparr> = 1707942655410000000
     \<and> normalize E logDoc idx =
          Inr (\<lparr>Streams = [\<lparr>Stream = labels E logDoc idx,
                             Values = [[''1707942655410000000'', fst (message E logDoc)]]\<rparr>]\<rparr>,
               snd (message E logDoc))"
proof -
  have p: "parse_graylogTimestampFormat ''2024-02-14 20:30:55.410'' =
           Some \<lparr>unixSec = 1707942655, nsec = 410000000\<rparr>"
    by code_simp
  have d: "Date 2024 2 14 20 30 55 410000000 = \<lparr>unixSec = 1707942655, nsec = 410000000\<rparr>"
    by code_simp
  have e: "epochNanos \<lparr>unixSec = 1707942655, nsec = 410000000\<rparr> = 1707942655410000000"
    by (simp add: epochNanos_def)
  have f: "FormatInt (UnixNano \<lparr>unixSec = 1707942655, nsec = 410000000\<rparr>) = ''1707942655410000000''"
    by code_simp
  have "timestampNanos logDoc = Inr (''1707942655410000000'', [])"
    using timestampNanos_custom [OF assms p] f by simp
  then show ?thesis using p d e by (simp add: normalize_shape)
qed

text \<open>Claim C6, witness.\<close>

theorem C6_graylog_timestamp_example_witness:
  "normalize example_env example_doc ''logs'' =
     Inr (\<lparr>Streams = [\<lparr>Stream = labels example_env example_doc ''logs'',
                        Values = [[''1707942655410000000'', ''disk full'']]\<rparr>]\<rparr>, [])"
proof -
  have i: "index example_doc ''timestamp'' = JStr ''2024-02-14 20:30:55.410''"
    by (simp add: index_def example_doc_def)
  have m: "message example_env example_doc = (''disk full'', [])"
    by (simp add: message_def index_def example_doc_def)
  show ?thesis
    using C6_graylog_timestamp_example [OF i, of example_env "''logs''"] by (simp add: m)
qed

lemma pushLogToLoki_Inr:
  "normalize E d idx = Inr (req, w) \<Longrightarrow>
   pushLogToLoki E url d idx = (fst (deliver E url req), map Log w @ snd (deliver E url req))"
  by (simp add: pushLogToLoki_def split: prod.splits)

text \<open>
  Claim C8. For a document whose \<^verbatim>\<open>message\<close> field is absent or not a string, normalisation
  fails only when the timestamp does (the record is not dropped for its message); the
  message body of the push request is the JSON serialisation of the whole document, the
  warning with that text is logged, and the request goes on to delivery.
\<close>

theorem C8_message_fallback:
  assumes "\<forall>s. index logDoc ''message'' \<noteq> JStr s"
  shows "(isl (normalize E logDoc idx) \<longleftrightarrow> isl (timestampNanos logDoc))
     \<and> (\<forall>req w. normalize E logDoc idx = Inr (req, w) \<longrightarrow>
           (\<exists>ts. map Values (Streams req) = [[[ts, json_Marshal E logDoc]]])
           \<and> WarnMessageMissing (json_Marshal E logDoc) \<in> set w
           \<and> (\<forall>url. pushLogToLoki E url logDoc idx =
                 (fst (deliver E url req), map Log w @ snd (deliver E url req))))"
proof -
  have "as_string (index logDoc ''message'') = None"
    using assms by (cases "index logDoc ''message''") auto
  then have m: "message E logDoc = (json_Marshal E logDoc, [WarnMessageMissing (json_Marshal E logDoc)])"
    by (simp add: message_def)
  show ?thesis
    by (auto simp: normalize_isl pushLogToLoki_Inr)
       (auto simp: normalize_shape m split: sum.splits)
qed

lemma example_doc_nomsg_normalize:
  "normalize example_env example_doc_nomsg ''logs'' =
     Inr (\<lparr>Streams = [\<lparr>Stream = labels example_env example_doc_nomsg ''logs'',
                        Values = [[''1707942655410000000'', ''{...}'']]\<rparr>]\<rparr>,
          [WarnMessageMissing ''{...}''])"
proof -
  have "timestampNanos example_doc_nomsg = Inr (''1707942655410000000'', [])"
    by code_simp
  then show ?thesis
    by (simp add: normalize_shape)
       (simp add: message_def index_def example_doc_nomsg_def example_env_def)
qed

text \<open>Claim C8, witness: a document whose \<^verbatim>\<open>message\<close> is a number.\<close>

theorem C8_message_fallback_witness:
  "json_Marshal example_env example_doc_nomsg = ''{...}''
   \<and> WarnMessageMissing ''{...}'' \<in> set [WarnMessageMissing ''{...}'']
   \<and> pushLogToLoki example_env ''http://loki/push'' example_doc_nomsg ''logs'' =
       (None,
        [Log (WarnMessageMissing ''{...}''),
         Post ''http://loki/push''
           \<lparr>Streams = [\<lparr>Stream = labels example_env example_doc_nomsg ''logs'',
                        Values = [[''1707942655410000000'', ''{...}'']]\<rparr>]\<rparr>])"
proof -
  have a: "\<forall>s. index example_doc_nomsg ''message'' \<noteq> JStr s"
    by (simp add: index_def example_doc_nomsg_def)
  have j: "json_Marshal example_env example_doc_nomsg = ''{...}''"
    by (simp add: example_env_def)
  have "\<forall>url. pushLogToLoki example_env url example_doc_nomsg ''logs'' =
       (fst (deliver example_env url
              \<lparr>Streams = [\<lparr>Stream = labels example_env example_doc_nomsg ''logs'',
                        Values = [[''1707942655410000000'', ''{...}'']]\<rparr>]\<rparr>),
        map Log [WarnMessageMissing ''{...}''] @
        snd (deliver example_env url
              \<lparr>Streams = [\<lparr>Stream = labels example_env example_doc_nomsg ''logs'',
                        Values = [[''1707942655410000000'', ''{...}'']]\<rparr>]\<rparr>))"
    using C8_message_fallback [OF a, of example_env "''logs''"] example_doc_nomsg_normalize
    by blast
  then show ?thesis
    using j by (simp add: deliver_def) (simp add: example_env_def)
qed

text \<open>
  Claim C9. The label set of a normalised document holds \<^verbatim>\<open>app\<close> = \<^verbatim>\<open>graylog-forwarder\<close>,
  \<^verbatim>\<open>source_index\<close> = the index name and \<^verbatim>\<open>data_origin\<close> = \<^verbatim>\<open>historical\<close>; its other labels
  are \<^verbatim>\<open>app_name\<close>, present exactly when \<^verbatim>\<open>app\<close> is a string, \<^verbatim>\<open>log_level\<close>, present exactly
  when \<^verbatim>\<open>level\<close> is a number or a string, and \<^verbatim>\<open>host\<close>, present exactly when \<^verbatim>\<open>host\<close> is a
  string.
\<close>

theorem C9_label_set:
  assumes "normalize E logDoc idx = Inr (req, w)"
  shows "map Stream (Streams req) = [labels E logDoc idx]
     \<and> map_of (labels E logDoc idx) ''app'' = Some ''graylog-forwarder''
     \<and> map_of (labels E logDoc idx) ''source_index'' = Some idx
     \<and> map_of (labels E logDoc idx) ''data_origin'' = Some ''historical''
     \<and> dom (map_of (labels E logDoc idx)) =
         {''app'', ''source_index'', ''data_origin''}
         \<union> (if \<exists>s. index logDoc ''app'' = JStr s then {''app_name''} else {})
         \<union> (if (\<exists>x. index logDoc ''level'' = JNum x) \<or> (\<exists>s. index logDoc ''level'' = JStr s)
             then {''log_level''} else {})
         \<union> (if \<exists>s. index logDoc ''host'' = JStr s then {''host''} else {})"
  using normalize_Inr_labels [OF assms] labels_fixed [of E logDoc idx] labels_dom [of E logDoc idx]
  by (elim conjE) (intro conjI; assumption)

text \<open>Claim C9, witness.\<close>

theorem C9_label_set_witness:
  "dom (map_of (labels example_env example_doc ''logs'')) =
     {''app'', ''source_index'', ''data_origin''} \<union> {''log_level''} \<union> {''host''}
   \<and> map_of (labels example_env example_doc ''logs'') ''source_index'' = Some ''logs''"
proof -
  have i: "index example_doc ''app'' = JNum 7" "index example_doc ''level'' = JNum (39 / 10)"
    "index example_doc ''host'' = JStr ''web-1''"
    by (simp_all add: index_def example_doc_def)
  have e1: "(\<exists>s. index example_doc ''app'' = JStr s) = False"
    by (simp add: i)
  have e2: "((\<exists>x. index example_doc ''level'' = JNum x) \<or> (\<exists>s. index example_doc ''level'' = JStr s)) = True"
    using i(2) by blast
  have e3: "(\<exists>s. index example_doc ''host'' = JStr s) = True"
    by (simp add: i)
  note e = e1 e2 e3
  note c = C9_label_set [OF example_doc_normalize]
  have s: "map_of (labels example_env example_doc ''logs'') ''source_index'' = Some ''logs''"
    using c by (elim conjE)
  have "dom (map_of (labels example_env example_doc ''logs'')) =
         {''app'', ''source_index'', ''data_origin''}
         \<union> (if \<exists>s. index example_doc ''app'' = JStr s then {''app_name''} else {})
         \<union> (if (\<exists>x. index example_doc ''level'' = JNum x) \<or> (\<exists>s. index example_doc ''level'' = JStr s)
             then {''log_level''} else {})
         \<union> (if \<exists>s. index example_doc ''host'' = JStr s then {''host''} else {})"
    using c by (elim conjE)
  then have "dom (map_of (labels example_env example_doc ''logs'')) =
     {''app'', ''source_index'', ''data_origin''} \<union> {''log_level''} \<union> {''host''}"
    by (simp only: e if_True if_False Un_empty_right)
  with s show ?thesis by (intro conjI)
qed

text \<open>
  Claim C10. A numeric \<^verbatim>\<open>level\<close> is truncated towards zero before the table lookup: the
  label is the table entry of the integer \<open>trunc x\<close>, which is no larger than \<open>x\<close> in
  absolute value and less than 1 away from it. So 3.9 gives error, 7.9 gives debug and
  -0.5 gives emergency, for the decimal values and for the float64 values nearest to
  them.
\<close>

theorem C10_fractional_level_truncated:
  assumes "normalize E logDoc idx = Inr (req, w)" and "index logDoc ''level'' = JNum x"
  shows "map Stream (Streams req) = [labels E logDoc idx]
     \<and> map_of (labels E logDoc idx) ''log_level'' = Some (convertGraylogLevel (trunc x))
     \<and> \<bar>of_int (trunc x)\<bar> \<le> \<bar>x\<bar> \<and> \<bar>x - of_int (trunc x)\<bar> < 1
     \<and> convertGraylogLevel (float64_to_int (39 / 10)) = ''error''
     \<and> convertGraylogLevel (float64_to_int (79 / 10)) = ''debug''
     \<and> convertGraylogLevel (float64_to_int (- 1 / 2)) = ''emergency''
     \<and> convertGraylogLevel (float64_to_int (8782019273372467 / 2251799813685248)) = ''error''
     \<and> convertGraylogLevel (float64_to_int (4447304632028365 / 562949953421312)) = ''debug''"
proof -
  have ex: "convertGraylogLevel (float64_to_int (39 / 10)) = ''error''"
    "convertGraylogLevel (float64_to_int (79 / 10)) = ''debug''"
    "convertGraylogLevel (float64_to_int (- 1 / 2)) = ''emergency''"
    "convertGraylogLevel (float64_to_int (8782019273372467 / 2251799813685248)) = ''error''"
    "convertGraylogLevel (float64_to_int (4447304632028365 / 562949953421312)) = ''debug''"
    by code_simp+
  have l: "map_of (labels E logDoc idx) ''log_level'' = Some (convertGraylogLevel (trunc x))"
    using labels_level_num [OF assms(2)] by (simp add: level_of_float64)
  show ?thesis
    using normalize_Inr_labels [OF assms(1)] l trunc_towards_zero [of x] ex by simp
qed

text \<open>Claim C10, witness.\<close>

theorem C10_fractional_level_truncated_witness:
  "map_of (labels example_env example_doc ''logs'') ''log_level'' = Some (convertGraylogLevel 3)
   \<and> trunc (39 / 10) = 3"
proof -
  have l: "index example_doc ''level'' = JNum (39 / 10)"
    by (simp add: index_def example_doc_def)
  have t: "trunc (39 / 10) = 3" by code_simp
  show ?thesis
    using C10_fractional_level_truncated [OF example_doc_normalize l] by (simp add: t)
qed

section \<open>Properties of the extraction loop\<close>

lemma scroll_id_missing:
  "\<forall>s. index sr ''_scroll_id'' = JStr s \<longrightarrow> s = [] \<Longrightarrow>
   (case as_string (index sr ''_scroll_id'') of None \<Rightarrow> [] | Some s \<Rightarrow> s) = []"
  by (cases "index sr ''_scroll_id''") auto

lemma sequential_loop_ignores_later:
  assumes "\<And>s. read_page status body s = Stop out0 []"
  shows "queryAndPushLogs_loop cb e (pre @ HttpResponse status body # rest) sid w =
         queryAndPushLogs_loop cb e (pre @ [HttpResponse status body]) sid w"
proof (induction pre arbitrary: e sid w)
  case Nil
  show ?case by (simp add: assms)
next
  case (Cons a pre)
  show ?case
  proof (cases a)
    case RequestFailed
    then show ?thesis by simp
  next
    case (HttpResponse st b)
    show ?thesis
    proof (cases "read_page st b sid")
      case (Stop o1 s1)
      with HttpResponse show ?thesis by simp
    next
      case (Hits s1 hits)
      show ?thesis
      proof (cases "queryAndPushLogs_hits cb hits w")
        case (Pair r w')
        with HttpResponse Hits Cons.IH [of ErrScrollRequest s1 w'] show ?thesis
          by (cases r) simp_all
      qed
    qed
  qed
qed

lemma sequential_loop_stops_at:
  assumes "\<And>s. read_page status body s = Stop out0 []"
  shows "snd (snd (queryAndPushLogs_loop cb e (pre @ [HttpResponse status body]) sid w)) =
           snd (snd (queryAndPushLogs_loop cb e (pre @ [RequestFailed]) sid w))
       \<and> (queryAndPushLogs_loop cb e (pre @ [HttpResponse status body]) sid w =
             queryAndPushLogs_loop cb e (pre @ [RequestFailed]) sid w
          \<or> fst (queryAndPushLogs_loop cb e (pre @ [HttpResponse status body]) sid w) = out0)"
proof (induction pre arbitrary: e sid w)
  case Nil
  show ?case by (simp add: assms)
next
  case (Cons a pre)
  show ?case
  proof (cases a)
    case RequestFailed
    then show ?thesis by simp
  next
    case (HttpResponse st b)
    show ?thesis
    proof (cases "read_page st b sid")
      case (Stop o1 s1)
      with HttpResponse show ?thesis by simp
    next
      case (Hits s1 hits)
      show ?thesis
      proof (cases "queryAndPushLogs_hits cb hits w")
        case (Pair r w')
        with HttpResponse Hits Cons.IH [of ErrScrollRequest s1 w'] show ?thesis
          by (cases r) simp_all
      qed
    qed
  qed
qed

lemma parallel_loop_ignores_later:
  assumes "\<And>s. read_page status body s = Stop out0 []"
  shows "queryAndPushLogsParallel_loop e (pre @ HttpResponse status body # rest) sid n =
         queryAndPushLogsParallel_loop e (pre @ [HttpResponse status body]) sid n"
proof (induction pre arbitrary: e sid n)
  case Nil
  show ?case by (simp add: assms)
next
  case (Cons a pre)
  show ?case
  proof (cases a)
    case RequestFailed
    then show ?thesis by simp
  next
    case (HttpResponse st b)
    show ?thesis
    proof (cases "read_page st b sid")
      case (Stop o1 s1)
      with HttpResponse show ?thesis by simp
    next
      case (Hits s1 hits)
      obtain p a1 n1 where h: "queryAndPushLogsParallel_hits hits n = (p, a1, n1)"
        by (cases "queryAndPushLogsParallel_hits hits n") auto
      with HttpResponse Hits Cons.IH [of ErrScrollRequest s1 n1] show ?thesis
        by (cases p) simp_all
    qed
  qed
qed

lemma parallel_loop_stops_at:
  assumes "\<And>s. read_page status body s = Stop out0 []"
  shows "snd (snd (queryAndPushLogsParallel_loop e (pre @ [HttpResponse status body]) sid n)) =
           snd (snd (queryAndPushLogsParallel_loop e (pre @ [RequestFailed]) sid n))
       \<and> (queryAndPushLogsParallel_loop e (pre @ [HttpResponse status body]) sid n =
             queryAndPushLogsParallel_loop e (pre @ [RequestFailed]) sid n
          \<or> fst (queryAndPushLogsParallel_loop e (pre @ [HttpResponse status body]) sid n) = out0)"
proof (induction pre arbitrary: e sid n)
  case Nil
  show ?case by (simp add: assms)
next
  case (Cons a pre)
  show ?case
  proof (cases a)
    case RequestFailed
    then show ?thesis by simp
  next
    case (HttpResponse st b)
    show ?thesis
    proof (cases "read_page st b sid")
      case (Stop o1 s1)
      with HttpResponse show ?thesis by simp
    next
      case (Hits s1 hits)
      obtain p a1 n1 where h: "queryAndPushLogsParallel_hits hits n = (p, a1, n1)"
        by (cases "queryAndPushLogsParallel_hits hits n") auto
      with HttpResponse Hits Cons.IH [of ErrScrollRequest s1 n1] show ?thesis
        by (cases p) (auto split: prod.splits)
    qed
  qed
qed

text \<open>
  Claim C3. When the response being processed has a non-empty hit list and its
  \<^verbatim>\<open>_scroll_id\<close> is missing, not a string or the empty string, both variants of the loop
  return the fatal error "missing _scroll_id" at once, in any state of the run and
  whatever the source would answer later: the sequential loop leaves the world as it
  was (the callback is not called), the worker-pool loop contributes no action (nothing is
  sent on the channel). The same holds for the whole function when the page is the
  first. For the page at any place in the sequence of answers, after the answers \<open>pre\<close>:
  the run does not depend on the answers after it; what it emits (the world of the
  sequential loop, the actions and the count of the worker-pool loop) is what it emits
  when that request fails instead, so nothing of the page is emitted; and either the run
  ended before the page, or it returns the fatal error.
\<close>

theorem C3_missing_cursor_is_fatal:
  assumes "\<not> status > 299"
      and "index searchResponse ''hits'' = JObj hm"
      and "index hm ''hits'' = JArr hits"
      and "hits \<noteq> []"
      and "\<forall>s. index searchResponse ''_scroll_id'' = JStr s \<longrightarrow> s = []"
  shows "queryAndPushLogs_loop cb e (HttpResponse status (Some searchResponse) # rest) scrollID w =
           (Returned (Some ErrMissingScrollID), [], w)
     \<and> queryAndPushLogsParallel_loop e (HttpResponse status (Some searchResponse) # rest) scrollID n =
           (Returned (Some ErrMissingScrollID), [], [], n)
     \<and> queryAndPushLogs E (HttpResponse status (Some searchResponse) # rest) cb w =
           (Returned (Some ErrMissingScrollID), w)
     \<and> queryAndPushLogsParallel E (HttpResponse status (Some searchResponse) # rest) =
           (Returned (Some ErrMissingScrollID), [])
     \<and> queryAndPushLogs_loop cb e (pre @ HttpResponse status (Some searchResponse) # rest) scrollID w =
           queryAndPushLogs_loop cb e (pre @ [HttpResponse status (Some searchResponse)]) scrollID w
     \<and> snd (snd (queryAndPushLogs_loop cb e (pre @ HttpResponse status (Some searchResponse) # rest) scrollID w)) =
           snd (snd (queryAndPushLogs_loop cb e (pre @ [RequestFailed]) scrollID w))
     \<and> (queryAndPushLogs_loop cb e (pre @ HttpResponse status (Some searchResponse) # rest) scrollID w =
             queryAndPushLogs_loop cb e (pre @ [RequestFailed]) scrollID w
          \<or> fst (queryAndPushLogs_loop cb e (pre @ HttpResponse status (Some searchResponse) # rest) scrollID w) =
             Returned (Some ErrMissingScrollID))
     \<and> queryAndPushLogsParallel_loop e (pre @ HttpResponse status (Some searchResponse) # rest) scrollID n =
           queryAndPushLogsParallel_loop e (pre @ [HttpResponse status (Some searchResponse)]) scrollID n
     \<and> snd (snd (queryAndPushLogsParallel_loop e (pre @ HttpResponse status (Some searchResponse) # rest) scrollID n)) =
           snd (snd (queryAndPushLogsParallel_loop e (pre @ [RequestFailed]) scrollID n))
     \<and> (queryAndPushLogsParallel_loop e (pre @ HttpResponse status (Some searchResponse) # rest) scrollID n =
             queryAndPushLogsParallel_loop e (pre @ [RequestFailed]) scrollID n
          \<or> fst (queryAndPushLogsParallel_loop e (pre @ HttpResponse status (Some searchResponse) # rest) scrollID n) =
             Returned (Some ErrMissingScrollID))"
proof -
  note m = scroll_id_missing [OF assms(5)]
  have r: "read_page status (Some searchResponse) s = Stop (Returned (Some ErrMissingScrollID)) []"
    for s
    using assms(1-4) by (simp add: read_page_def m)
  have a1: "queryAndPushLogs_loop cb e (HttpResponse status (Some searchResponse) # rest) scrollID w =
           (Returned (Some ErrMissingScrollID), [], w)"
    by (simp add: r)
  have a2: "queryAndPushLogsParallel_loop e (HttpResponse status (Some searchResponse) # rest) scrollID n =
           (Returned (Some ErrMissingScrollID), [], [], n)"
    by (simp add: r)
  have a3: "queryAndPushLogs E (HttpResponse status (Some searchResponse) # rest) cb w =
           (Returned (Some ErrMissingScrollID), w)"
    by (simp add: r queryAndPushLogs_def clearScroll_def)
  have a4: "queryAndPushLogsParallel E (HttpResponse status (Some searchResponse) # rest) =
           (Returned (Some ErrMissingScrollID), [])"
    by (simp add: r queryAndPushLogsParallel_def clearScroll_def)
  note s1 = sequential_loop_ignores_later [of status "Some searchResponse", OF r, of cb e pre rest scrollID w]
  note s2 = sequential_loop_stops_at [of status "Some searchResponse", OF r, of cb e pre scrollID w]
  note p1 = parallel_loop_ignores_later [of status "Some searchResponse", OF r, of e pre rest scrollID n]
  note p2 = parallel_loop_stops_at [of status "Some searchResponse", OF r, of e pre scrollID n]
  have s3: "snd (snd (queryAndPushLogs_loop cb e (pre @ HttpResponse status (Some searchResponse) # rest) scrollID w)) =
           snd (snd (queryAndPushLogs_loop cb e (pre @ [RequestFailed]) scrollID w))"
    unfolding s1 by (rule conjunct1 [OF s2])
  have s4: "queryAndPushLogs_loop cb e (pre @ HttpResponse status (Some searchResponse) # rest) scrollID w =
             queryAndPushLogs_loop cb e (pre @ [RequestFailed]) scrollID w
          \<or> fst (queryAndPushLogs_loop cb e (pre @ HttpResponse status (Some searchResponse) # rest) scrollID w) =
             Returned (Some ErrMissingScrollID)"
    unfolding s1 by (rule conjunct2 [OF s2])
  have p3: "snd (snd (queryAndPushLogsParallel_loop e (pre @ HttpResponse status (Some searchResponse) # rest) scrollID n)) =
           snd (snd (queryAndPushLogsParallel_loop e (pre @ [RequestFailed]) scrollID n))"
    unfolding p1 by (rule conjunct1 [OF p2])
  have p4: "queryAndPushLogsParallel_loop e (pre @ HttpResponse status (Some searchResponse) # rest) scrollID n =
             queryAndPushLogsParallel_loop e (pre @ [RequestFailed]) scrollID n
          \<or> fst (queryAndPushLogsParallel_loop e (pre @ HttpResponse status (Some searchResponse) # rest) scrollID n) =
             Returned (Some ErrMissingScrollID)"
    unfolding p1 by (rule conjunct2 [OF p2])
  show ?thesis
    by (intro conjI) (rule a1 a2 a3 a4 s1 s3 s4 p1 p3 p4)+
qed

text \<open>Claim C3, witness: the second page of a source has hits and no cursor; the one
  document of the first page is emitted, nothing of the second or the third.\<close>

theorem C3_missing_cursor_is_fatal_witness:
  "queryAndPushLogsParallel_loop ErrScrollRequest
      [example_page_no_cursor [example_hit example_doc_nomsg],
       example_page ''abd'' [example_hit example_doc_rfc]] ''abc'' 1 =
     (Returned (Some ErrMissingScrollID), [], [], 1)
   \<and> queryAndPushLogsParallel example_env example_source_no_cursor =
     (Returned (Some ErrMissingScrollID), [Send example_doc])
   \<and> fst (main_sequential example_env example_source_no_cursor ''http://loki/push'' ''logs'') =
        Returned (Some ErrMissingScrollID)
   \<and> length (posts (snd (main_sequential example_env example_source_no_cursor ''http://loki/push'' ''logs''))) = 1"
proof -
  have h: "index [(''hits'', JObj [(''hits'', JArr [example_hit example_doc_nomsg])])] ''hits'' =
      JObj [(''hits'', JArr [example_hit example_doc_nomsg])]"
    "index [(''hits'', JArr [example_hit example_doc_nomsg])] ''hits'' = JArr [example_hit example_doc_nomsg]"
    "\<forall>s. index [(''hits'', JObj [(''hits'', JArr [example_hit example_doc_nomsg])])] ''_scroll_id'' = JStr s
       \<longrightarrow> s = []"
    by (simp_all add: index_def)
  have s: "\<not> (200::nat) > 299" by simp
  have n: "[example_hit example_doc_nomsg] \<noteq> []" by simp
  note t = C3_missing_cursor_is_fatal [OF s h(1) h(2) n h(3)]
  have p: "queryAndPushLogsParallel_loop ErrScrollRequest
      [example_page_no_cursor [example_hit example_doc_nomsg],
       example_page ''abd'' [example_hit example_doc_rfc]] ''abc'' 1 =
     (Returned (Some ErrMissingScrollID), [], [], 1)"
    unfolding example_page_no_cursor_def by (rule conjunct1 [OF conjunct2 [OF t]])
  have q: "queryAndPushLogsParallel example_env example_source_no_cursor =
     (Returned (Some ErrMissingScrollID), [Send example_doc])"
    by code_simp
  have r: "fst (main_sequential example_env example_source_no_cursor ''http://loki/push'' ''logs'') =
        Returned (Some ErrMissingScrollID)"
    "length (posts (snd (main_sequential example_env example_source_no_cursor ''http://loki/push'' ''logs''))) = 1"
    by code_simp+
  show ?thesis using p q r by simp
qed

text \<open>
  Claim C4 fails on the code. The first page gives the cursor \<^verbatim>\<open>abc\<close>; the second has hits
  and no cursor. The failed assertion of line 182 sets \<^verbatim>\<open>scrollID\<close> to the empty string, the
  function returns the error, and the deferred function, reading the empty \<^verbatim>\<open>scrollID\<close>,
  sends no \<^verbatim>\<open>ClearScrollRequest\<close>: the cursor \<^verbatim>\<open>abc\<close> is never invalidated. (Had the source
  stopped answering after the first page, \<^verbatim>\<open>abc\<close> would have been cleared.)
\<close>

theorem C4_cursor_leak_on_missing_cursor:
  "fst (main_sequential example_env example_source_no_cursor ''http://loki/push'' ''logs'') =
        Returned (Some ErrMissingScrollID)
   \<and> clears (snd (main_sequential example_env example_source_no_cursor ''http://loki/push'' ''logs'')) = []
   \<and> fst (main_parallel example_env example_source_no_cursor) = Returned (Some ErrMissingScrollID)
   \<and> clears (emits (snd (main_parallel example_env example_source_no_cursor))) = []
   \<and> clears (emits (snd (main_parallel example_env (take 1 example_source_no_cursor)))) = [''abc'']
   \<and> clears (snd (main_sequential example_env (take 1 example_source_no_cursor) ''http://loki/push'' ''logs''))
        = [''abc'']"
  by code_simp

section \<open>Properties of the worker pool\<close>

lemma sends_simps [simp]:
  "sends [] = []"
  "sends (Send d # r) = d # sends r"
  "sends (Emit e # r) = sends r"
  "sends (CloseChan # r) = sends r"
  "sends (WaitWorkers # r) = sends r"
  "sends (a @ b) = sends a @ sends b"
  by (simp_all add: sends_def)

lemma emits_simps [simp]:
  "emits [] = []"
  "emits (Send d # r) = emits r"
  "emits (Emit e # r) = e # emits r"
  "emits (CloseChan # r) = emits r"
  "emits (WaitWorkers # r) = emits r"
  "emits (a @ b) = emits a @ emits b"
  by (simp_all add: emits_def)

lemma busy_simps [simp]:
  "busy [] = []"
  "busy (Idle # ws) = busy ws"
  "busy (Busy d # ws) = d # busy ws"
  "busy (Exited # ws) = busy ws"
  "busy (a @ b) = busy a @ busy b"
  by (simp_all add: busy_def)

lemma failures_append [simp]: "failures (a @ b) = failures a @ failures b"
  by (simp add: failures_def)

lemma posts_append [simp]: "posts (a @ b) = posts a @ posts b"
  by (simp add: posts_def)

lemma busy_update:
  "i < length ws \<Longrightarrow>
   mset (busy (ws[i := w])) + mset (busy [ws ! i]) = mset (busy ws) + mset (busy [w])"
proof (induction ws arbitrary: i)
  case Nil
  then show ?case by simp
next
  case (Cons x xs)
  show ?case
  proof (cases i)
    case 0
    then show ?thesis by (cases x; cases w) simp_all
  next
    case (Suc j)
    with Cons.prems have "j < length xs" by simp
    from Cons.IH [OF this] Suc show ?thesis by (cases x) simp_all
  qed
qed

lemma sends_before_close_tl:
  "sends_before_close (a # r) \<Longrightarrow> a \<noteq> CloseChan \<Longrightarrow> sends_before_close r"
  by (cases a) simp_all

lemma pool_inv_producer_step: "pool_inv M c \<Longrightarrow> pool_inv M (producer_step c)"
proof -
  assume inv: "pool_inv M c"
  show ?thesis
  proof (cases "script c")
    case Nil
    with inv show ?thesis by (simp add: producer_step_def)
  next
    case (Cons a r)
    show ?thesis
    proof (cases a)
      case (Emit e)
      with Cons inv show ?thesis
        by (auto simp: producer_step_def pool_inv_def split: if_splits)
    next
      case (Send d)
      with Cons inv show ?thesis
        by (auto simp: producer_step_def pool_inv_def split: if_splits)
    next
      case CloseChan
      with Cons inv show ?thesis
        by (auto simp: producer_step_def pool_inv_def split: if_splits)
    next
      case WaitWorkers
      with Cons inv show ?thesis
        by (auto simp: producer_step_def pool_inv_def split: if_splits)
    qed
  qed
qed

lemma set_update_Exited:
  "Exited \<in> set (ws[i := w]) \<Longrightarrow> w \<noteq> Exited \<Longrightarrow> Exited \<in> set ws"
  by (metis in_set_conv_nth length_list_update nth_list_update_eq nth_list_update_neq)

lemma pool_inv_worker_step: "pool_inv M c \<Longrightarrow> pool_inv M (worker_step E url idx i c)"
proof -
  assume inv: "pool_inv M c"
  show ?thesis
  proof (cases "script c = [] \<or> \<not> i < length (workers c)")
    case True
    with inv show ?thesis by (simp add: worker_step_def)
  next
    case False
    then have i: "i < length (workers c)" and s: "script c \<noteq> []" by auto
    show ?thesis
    proof (cases "workers c ! i")
      case Idle
      show ?thesis
      proof (cases "chan c")
        case Nil
        show ?thesis
        proof (cases "closed c")
          case True
          have "mset (busy ((workers c)[i := Exited])) = mset (busy (workers c))"
            using busy_update [OF i, of Exited] Idle by simp
          with inv Nil True Idle i s show ?thesis
            by (auto simp: worker_step_def pool_inv_def)
        next
          case False
          with inv Nil Idle i s show ?thesis by (simp add: worker_step_def)
        qed
      next
        case (Cons d ds)
        have b: "mset (busy ((workers c)[i := Busy d])) = mset (busy (workers c)) + {#d#}"
          using busy_update [OF i, of "Busy d"] Idle by simp
        have "Exited \<notin> set (workers c)"
          using inv Cons by (auto simp: pool_inv_def)
        then have "Exited \<notin> set ((workers c)[i := Busy d])"
          using set_update_Exited [of "workers c" i "Busy d"] by auto
        with inv Cons Idle i s b show ?thesis
          by (auto simp: worker_step_def pool_inv_def)
      qed
    next
      case (Busy d)
      have b: "mset (busy ((workers c)[i := Idle])) + {#d#} = mset (busy (workers c))"
        using busy_update [OF i, of Idle] Busy by simp
      have e: "Exited \<in> set ((workers c)[i := Idle]) \<Longrightarrow> Exited \<in> set (workers c)"
        using set_update_Exited [of "workers c" i Idle] by auto
      from inv Busy i s b e show ?thesis
        by (auto simp: worker_step_def pool_inv_def simp flip: b)
    next
      case Exited
      with inv i s show ?thesis by (simp add: worker_step_def)
    qed
  qed
qed

lemma pool_inv_step: "pool_inv M c \<Longrightarrow> pool_inv M (step E url idx ch c)"
  by (cases ch) (simp_all add: pool_inv_producer_step pool_inv_worker_step)

lemma pool_inv_run: "pool_inv M c \<Longrightarrow> pool_inv M (run E url idx sched c)"
  unfolding run_def by (induction sched arbitrary: c) (simp_all add: pool_inv_step)

lemma length_workers_step [simp]: "length (workers (step E url idx ch c)) = length (workers c)"
  by (cases ch)
     (auto simp: producer_step_def worker_step_def split: list.splits paction.splits worker.splits)

lemma length_workers_run [simp]: "length (workers (run E url idx sched c)) = length (workers c)"
  unfolding run_def by (induction sched arbitrary: c) simp_all

lemma list_all_Exited_update:
  "list_all (\<lambda>w. w = Exited) ws \<Longrightarrow> i < length ws \<Longrightarrow> ws ! i = Exited"
  by (simp add: list_all_length)

lemma waited_step: "waited c \<Longrightarrow> waited (step E url idx ch c)"
proof (cases ch)
  case Producer
  assume "waited c"
  then show ?thesis using Producer
    by (auto simp: waited_def producer_step_def split: list.splits paction.splits)
next
  case (Worker i)
  assume w: "waited c"
  show ?thesis
  proof (cases "list_all (\<lambda>w. w = Exited) (workers c)")
    case True
    then have "worker_step E url idx i c = c"
      by (auto simp: worker_step_def list_all_length)
    with w Worker show ?thesis by simp
  next
    case False
    with w have "WaitWorkers \<in> set (script c)" by (simp add: waited_def)
    moreover have "script (worker_step E url idx i c) = script c"
      by (auto simp: worker_step_def split: worker.splits list.splits)
    ultimately show ?thesis using Worker by (simp add: waited_def)
  qed
qed

lemma waited_run: "waited c \<Longrightarrow> waited (run E url idx sched c)"
  unfolding run_def by (induction sched arbitrary: c) (simp_all add: waited_step)

lemma failures_Cons: "failures (e # r) = failures [e] @ failures r"
  by (simp add: failures_def)

lemma posts_Cons: "posts (e # r) = posts [e] @ posts r"
  by (simp add: posts_def)

lemma trace_inv_step: "trace_inv E url idx c \<Longrightarrow> trace_inv E url idx (step E url idx ch c)"
proof (cases ch)
  case Producer
  assume t: "trace_inv E url idx c"
  show ?thesis
  proof (cases "script c")
    case Nil
    with t Producer show ?thesis by (simp add: producer_step_def)
  next
    case (Cons a r)
    with t Producer show ?thesis
      using failures_Cons [of _ "emits r"] posts_Cons [of _ "emits r"]
      by (cases a) (auto simp: producer_step_def trace_inv_def)
  qed
next
  case (Worker i)
  assume "trace_inv E url idx c"
  then show ?thesis using Worker
    by (auto simp: worker_step_def trace_inv_def split: worker.splits list.splits)
qed

lemma trace_inv_run: "trace_inv E url idx c \<Longrightarrow> trace_inv E url idx (run E url idx sched c)"
  unfolding run_def by (induction sched arbitrary: c) (simp_all add: trace_inv_step)

lemma order_inv_step: "order_inv ds c \<Longrightarrow> order_inv ds (step E url idx ch c)"
proof (cases ch)
  case Producer
  assume o: "order_inv ds c"
  show ?thesis
  proof (cases "script c")
    case Nil
    with o Producer show ?thesis by (simp add: producer_step_def)
  next
    case (Cons a r)
    with o Producer show ?thesis
      by (cases a) (auto simp: producer_step_def order_inv_def)
  qed
next
  case (Worker i)
  assume o: "order_inv ds c"
  then obtain w where w: "workers c = [w]"
    by (cases "workers c") (auto simp: order_inv_def)
  show ?thesis
  proof (cases "i = 0")
    case True
    with o w Worker show ?thesis
      by (cases w; cases "chan c") (auto simp: worker_step_def order_inv_def)
  next
    case False
    with w Worker o show ?thesis by (simp add: worker_step_def)
  qed
qed

lemma order_inv_run: "order_inv ds c \<Longrightarrow> order_inv ds (run E url idx sched c)"
  unfolding run_def by (induction sched arbitrary: c) (simp_all add: order_inv_step)

lemma finished_append [simp]: "finished (a @ b) = finished a @ finished b"
  by (simp add: finished_def)

lemma plain_Nil [simp]: "plain []"
  by (simp add: plain_def failures_def posts_def finished_def)

lemma plain_append [simp]: "plain (a @ b) \<longleftrightarrow> plain a \<and> plain b"
  by (auto simp: plain_def)

lemma plain_Send [simp]: "plain (Send d # r) \<longleftrightarrow> plain r"
  by (auto simp: plain_def)

lemma plain_WarnNoSource [simp]: "plain (Emit (Log (WarnNoSource h)) # r) \<longleftrightarrow> plain r"
  by (auto simp: plain_def failures_def posts_def finished_def)

lemma hits_script:
  "queryAndPushLogsParallel_hits hits n = (p, acts, n') \<Longrightarrow> n' = n + length (sends acts) \<and> plain acts"
proof (induction hits arbitrary: n p acts n')
  case Nil
  then show ?case by auto
next
  case (Cons hit hits)
  show ?case
  proof (cases "as_map hit")
    case None
    with Cons.prems show ?thesis by auto
  next
    case (Some h)
    show ?thesis
    proof (cases "as_map (index h ''_source'')")
      case None
      obtain p1 a1 n1 where r: "queryAndPushLogsParallel_hits hits n = (p1, a1, n1)"
        by (cases "queryAndPushLogsParallel_hits hits n") auto
      from Cons.IH [OF r] Cons.prems Some None r show ?thesis by auto
    next
      case (Some logDoc)
      obtain p1 a1 n1 where r: "queryAndPushLogsParallel_hits hits (n + 1) = (p1, a1, n1)"
        by (cases "queryAndPushLogsParallel_hits hits (n + 1)") auto
      from Cons.IH [OF r] Cons.prems \<open>as_map hit = Some h\<close> Some r show ?thesis by auto
    qed
  qed
qed

lemma loop_script:
  "queryAndPushLogsParallel_loop e source scrollID n = (out, sid, acts, n') \<Longrightarrow>
   n' = n + length (sends acts) \<and> plain acts"
proof (induction e source scrollID n arbitrary: out sid acts n' rule: queryAndPushLogsParallel_loop.induct)
  case (1 e scrollID n)
  then show ?case by auto
next
  case (2 e rest scrollID n)
  then show ?case by auto
next
  case (3 e status body rest scrollID n)
  show ?case
  proof (cases "read_page status body scrollID")
    case (Stop o1 s1)
    with 3(2) show ?thesis by auto
  next
    case (Hits s1 hits)
    obtain p a1 n1 where h: "queryAndPushLogsParallel_hits hits n = (p, a1, n1)"
      by (cases "queryAndPushLogsParallel_hits hits n") auto
    note hf = hits_script [OF h]
    show ?thesis
    proof (cases p)
      case True
      with 3(2) Hits h hf show ?thesis by auto
    next
      case False
      obtain o2 s2 a2 n2 where
        l: "queryAndPushLogsParallel_loop ErrScrollRequest rest s1 n1 = (o2, s2, a2, n2)"
        by (cases "queryAndPushLogsParallel_loop ErrScrollRequest rest s1 n1") auto
      have ih: "n2 = n1 + length (sends a2) \<and> plain a2"
        using 3(1) [OF Hits _ _ _ l] h False by auto
      with 3(2) Hits h hf False l show ?thesis by auto
    qed
  qed
qed

lemma main_callback_ok:
  "fst (pushLogToLoki E url d idx) = None \<Longrightarrow>
   main_callback E url idx d w =
     (None, w\<lparr>trace := trace w @ snd (pushLogToLoki E url d idx),
               processedCount := processedCount w + 1\<rparr>)"
  by (cases "pushLogToLoki E url d idx") (simp add: main_callback_def)

lemma sequential_events_simps [simp]:
  "sequential_events E url idx [] = []"
  "sequential_events E url idx (Emit e # r) = e # sequential_events E url idx r"
  "sequential_events E url idx (Send d # r) =
     snd (pushLogToLoki E url d idx) @ sequential_events E url idx r"
  "sequential_events E url idx (a @ b) = sequential_events E url idx a @ sequential_events E url idx b"
  by (simp_all add: sequential_events_def)

lemma hits_simulation:
  "queryAndPushLogsParallel_hits hits n = (p, acts, n') \<Longrightarrow>
   \<forall>d\<in>set (sends acts). fst (pushLogToLoki E url d idx) = None \<Longrightarrow>
   queryAndPushLogs_hits (main_callback E url idx) hits w =
     ((if p then Some Panicked else None),
      w\<lparr>trace := trace w @ sequential_events E url idx acts,
        processedCount := processedCount w + length (sends acts)\<rparr>)"
proof (induction hits arbitrary: n p acts n' w)
  case Nil
  then show ?case by auto
next
  case (Cons hit hits)
  show ?case
  proof (cases "as_map hit")
    case None
    with Cons.prems show ?thesis by auto
  next
    case (Some h)
    show ?thesis
    proof (cases "as_map (index h ''_source'')")
      case None
      obtain p1 a1 n1 where r: "queryAndPushLogsParallel_hits hits n = (p1, a1, n1)"
        by (cases "queryAndPushLogsParallel_hits hits n") auto
      have a: "acts = Emit (Log (WarnNoSource hit)) # a1" "p = p1"
        using Cons.prems(1) Some None r by auto
      have "\<forall>d\<in>set (sends a1). fst (pushLogToLoki E url d idx) = None"
        using Cons.prems(2) a by simp
      from Cons.IH [OF r this] Some None a show ?thesis by simp
    next
      case (Some logDoc)
      obtain p1 a1 n1 where r: "queryAndPushLogsParallel_hits hits (n + 1) = (p1, a1, n1)"
        by (cases "queryAndPushLogsParallel_hits hits (n + 1)") auto
      have a: "acts = Send logDoc # a1" "p = p1"
        using Cons.prems(1) \<open>as_map hit = Some h\<close> Some r by auto
      have ok: "fst (pushLogToLoki E url logDoc idx) = None"
        and rest: "\<forall>d\<in>set (sends a1). fst (pushLogToLoki E url d idx) = None"
        using Cons.prems(2) a by simp_all
      from Cons.IH [OF r rest] \<open>as_map hit = Some h\<close> Some a show ?thesis
        by (simp add: main_callback_ok [OF ok])
    qed
  qed
qed

lemma loop_simulation:
  "queryAndPushLogsParallel_loop e source scrollID n = (out, sid, acts, n') \<Longrightarrow>
   \<forall>d\<in>set (sends acts). fst (pushLogToLoki E url d idx) = None \<Longrightarrow>
   queryAndPushLogs_loop (main_callback E url idx) e source scrollID w =
     (out, sid,
      w\<lparr>trace := trace w @ sequential_events E url idx acts,
        processedCount := processedCount w + length (sends acts)\<rparr>)"
proof (induction e source scrollID n arbitrary: out sid acts n' w rule: queryAndPushLogsParallel_loop.induct)
  case (1 e scrollID n)
  then show ?case by auto
next
  case (2 e rest scrollID n)
  then show ?case by auto
next
  case (3 e status body rest scrollID n)
  show ?case
  proof (cases "read_page status body scrollID")
    case (Stop o1 s1)
    with 3(2) show ?thesis by auto
  next
    case (Hits s1 hits)
    obtain p a1 n1 where h: "queryAndPushLogsParallel_hits hits n = (p, a1, n1)"
      by (cases "queryAndPushLogsParallel_hits hits n") auto
    show ?thesis
    proof (cases p)
      case True
      with 3(2) Hits h have a: "acts = a1" "out = Panicked" "sid = s1" by auto
      with 3(3) have "\<forall>d\<in>set (sends a1). fst (pushLogToLoki E url d idx) = None" by simp
      from hits_simulation [OF h this, of w] True a Hits show ?thesis by simp
    next
      case False
      obtain o2 s2 a2 n2 where
        l: "queryAndPushLogsParallel_loop ErrScrollRequest rest s1 n1 = (o2, s2, a2, n2)"
        by (cases "queryAndPushLogsParallel_loop ErrScrollRequest rest s1 n1") auto
      with 3(2) Hits h False have a: "acts = a1 @ a2" "out = o2" "sid = s2" by auto
      with 3(3) have ok1: "\<forall>d\<in>set (sends a1). fst (pushLogToLoki E url d idx) = None"
        and ok2: "\<forall>d\<in>set (sends a2). fst (pushLogToLoki E url d idx) = None"
        by simp_all
      note hs = hits_simulation [OF h ok1, of w]
      have ih: "queryAndPushLogs_loop (main_callback E url idx) ErrScrollRequest rest s1 w' =
         (o2, s2, w'\<lparr>trace := trace w' @ sequential_events E url idx a2,
                      processedCount := processedCount w' + length (sends a2)\<rparr>)" for w'
        using 3(1) [OF Hits _ _ _ l ok2] h False by auto
      show ?thesis using Hits hs False a by (simp add: ih)
    qed
  qed
qed

lemma map_Emit_simps [simp]:
  "sends (map Emit l) = []" "emits (map Emit l) = l"
  "CloseChan \<notin> set (map Emit l)" "WaitWorkers \<notin> set (map Emit l)"
  by (induction l) auto

lemma clearScroll_quiet [simp]:
  "failures (clearScroll E sid) = []" "posts (clearScroll E sid) = []"
  "finished (clearScroll E sid) = []"
  by (auto simp: clearScroll_def failures_def posts_def finished_def)

lemma clears_clearScroll: "clears (clearScroll E sid) = (if sid = [] then [] else [sid])"
  by (simp add: clearScroll_def clears_def)

lemma sends_before_close_plain: "CloseChan \<notin> set a \<Longrightarrow> sends_before_close (a @ r) = sends_before_close r"
proof (induction a)
  case Nil
  then show ?case by simp
next
  case (Cons x a)
  then show ?case by (cases x) simp_all
qed

lemma sends_before_close_no_close: "CloseChan \<notin> set a \<Longrightarrow> sends_before_close a"
  using sends_before_close_plain [of a "[]"] by simp

lemma sends_before_close_Emits [simp]:
  "sends_before_close (map Emit l @ r) = sends_before_close r"
  "sends_before_close (map Emit l)"
  by (induction l) simp_all

lemma finished_Cons: "finished (e # r) = finished [e] @ finished r"
  by (simp add: finished_def)

lemma outcome_cases:
  obtains (ok) "out = Returned None" | (err) e where "out = Returned (Some e)" | (panic) "out = Panicked"
  by (cases out) auto

lemma main_parallel_script:
  assumes "main_parallel E source = (out, acts)"
  shows "\<exists>body sid.
     queryAndPushLogsParallel_loop ErrInitialSearch source [] 0 = (out, sid, body, length (sends body))
     \<and> plain body
     \<and> acts = (case out of
                 Returned None \<Rightarrow>
                   body @ [CloseChan, WaitWorkers, Emit (Log (Finished (length (sends body))))]
                   @ map Emit (clearScroll E sid)
               | Returned (Some e) \<Rightarrow> body @ map Emit (clearScroll E sid) @ [Emit (Log (FatalTransfer e))]
               | Panicked \<Rightarrow> body @ map Emit (clearScroll E sid))"
proof -
  obtain o1 sid body n where l: "queryAndPushLogsParallel_loop ErrInitialSearch source [] 0 = (o1, sid, body, n)"
    by (cases "queryAndPushLogsParallel_loop ErrInitialSearch source [] 0") auto
  from loop_script [OF l] have n: "n = length (sends body)" and p: "plain body" by simp_all
  show ?thesis
  proof (cases o1)
    case (Returned r)
    show ?thesis
    proof (cases r)
      case None
      with Returned l assms n p show ?thesis
        by (auto simp: main_parallel_def queryAndPushLogsParallel_def)
    next
      case (Some e)
      with Returned l assms n p show ?thesis
        by (auto simp: main_parallel_def queryAndPushLogsParallel_def)
    qed
  next
    case Panicked
    with l assms n p show ?thesis
      by (auto simp: main_parallel_def queryAndPushLogsParallel_def)
  qed
qed

lemma main_parallel_facts:
  assumes "main_parallel E source = (out, acts)"
  shows "sends_before_close acts"
    and "out = Returned None \<Longrightarrow> WaitWorkers \<in> set acts"
    and "failures (emits acts) = []" and "posts (emits acts) = []"
    and "finished (emits acts) = (if out = Returned None then [length (sends acts)] else [])"
proof -
  from main_parallel_script [OF assms] obtain body sid where
    p: "plain body" and
    a: "acts = (case out of
                 Returned None \<Rightarrow>
                   body @ [CloseChan, WaitWorkers, Emit (Log (Finished (length (sends body))))]
                   @ map Emit (clearScroll E sid)
               | Returned (Some e) \<Rightarrow> body @ map Emit (clearScroll E sid) @ [Emit (Log (FatalTransfer e))]
               | Panicked \<Rightarrow> body @ map Emit (clearScroll E sid))"
    by blast
  have c: "CloseChan \<notin> set body" using p by (simp add: plain_def)
  have q: "failures (emits body) = []" "posts (emits body) = []" "finished (emits body) = []"
    using p by (simp_all add: plain_def)
  have f: "failures [Log (Finished k)] = []" "posts [Log (Finished k)] = []"
    "finished [Log (Finished k)] = [k]"
    "failures [Log (FatalTransfer e)] = []" "posts [Log (FatalTransfer e)] = []"
    "finished [Log (FatalTransfer e)] = []" for k e
    by (simp_all add: failures_def posts_def finished_def)
  show "sends_before_close acts"
    unfolding a using c
    by (cases out rule: outcome_cases)
       (simp_all add: sends_before_close_plain sends_before_close_no_close)
  show "out = Returned None \<Longrightarrow> WaitWorkers \<in> set acts"
    unfolding a by simp
  show "failures (emits acts) = []"
    unfolding a using q failures_Cons [of _ "clearScroll E sid"] f
    by (cases out rule: outcome_cases) simp_all
  show "posts (emits acts) = []"
    unfolding a using q posts_Cons [of _ "clearScroll E sid"] f
    by (cases out rule: outcome_cases) simp_all
  show "finished (emits acts) = (if out = Returned None then [length (sends acts)] else [])"
    unfolding a using q f finished_Cons [of _ "clearScroll E sid"]
    by (cases out rule: outcome_cases) simp_all
qed

lemma pool_init_invariants:
  assumes "main_parallel E source = (out, acts)"
  shows "pool_inv (mset (sends acts)) (pool_init workerCount acts)"
    and "trace_inv E url idx (pool_init workerCount acts)"
    and "out = Returned None \<Longrightarrow> waited (pool_init workerCount acts)"
    and "order_inv (sends acts) (pool_init 1 acts)"
proof -
  have b: "busy (replicate k Idle) = []" for k by (induction k) simp_all
  have e: "Exited \<notin> set (replicate k Idle)" for k by simp
  note f = main_parallel_facts [OF assms]
  show "pool_inv (mset (sends acts)) (pool_init workerCount acts)"
    using f(1) by (simp add: pool_inv_def pool_init_def b)
  show "trace_inv E url idx (pool_init workerCount acts)"
    using f(3,4) by (simp add: trace_inv_def pool_init_def failures_def posts_def)
  show "out = Returned None \<Longrightarrow> waited (pool_init workerCount acts)"
    using f(2) by (simp add: waited_def pool_init_def)
  show "order_inv (sends acts) (pool_init 1 acts)"
    by (simp add: order_inv_def pool_init_def)
qed

lemma projections_Nil [simp]: "failures [] = []" "posts [] = []" "finished [] = []" "clears [] = []"
  by (simp_all add: failures_def posts_def finished_def clears_def)

lemma pushLogToLoki_quiet [simp]:
  "failures (snd (pushLogToLoki E url d idx)) = []"
  "finished (snd (pushLogToLoki E url d idx)) = []"
  by (auto simp: pushLogToLoki_def normalize_shape deliver_def timestampNanos_def message_def
        failures_def finished_def split: sum.splits option.splits prod.splits if_splits)

lemma worker_events_projections [simp]:
  "failures (worker_events E url idx d) =
     (case fst (pushLogToLoki E url d idx) of Some e \<Rightarrow> [e] | None \<Rightarrow> [])"
  "finished (worker_events E url idx d) = []"
  "posts (worker_events E url idx d) = posts (snd (pushLogToLoki E url d idx))"
proof -
  have f: "failures [Log (FailedPush e)] = [e]" "finished [Log (FailedPush e)] = []"
    "posts [Log (FailedPush e)] = []" for e
    by (simp_all add: failures_def finished_def posts_def)
  show "failures (worker_events E url idx d) =
     (case fst (pushLogToLoki E url d idx) of Some e \<Rightarrow> [e] | None \<Rightarrow> [])"
    using pushLogToLoki_quiet(1) [of E url d idx]
    by (cases "pushLogToLoki E url d idx") (auto simp: worker_events_def f split: option.splits)
  show "finished (worker_events E url idx d) = []"
    using pushLogToLoki_quiet(2) [of E url d idx]
    by (cases "pushLogToLoki E url d idx") (auto simp: worker_events_def f split: option.splits)
  show "posts (worker_events E url idx d) = posts (snd (pushLogToLoki E url d idx))"
    by (cases "pushLogToLoki E url d idx") (auto simp: worker_events_def f split: option.splits)
qed

lemma finished_inv_step: "finished_inv fs c \<Longrightarrow> finished_inv fs (step E url idx ch c)"
proof (cases ch)
  case Producer
  assume t: "finished_inv fs c"
  show ?thesis
  proof (cases "script c")
    case Nil
    with t Producer show ?thesis by (simp add: producer_step_def)
  next
    case (Cons a r)
    with t Producer show ?thesis
      using finished_Cons [of _ "emits r"]
      by (cases a) (auto simp: producer_step_def finished_inv_def)
  qed
next
  case (Worker i)
  assume "finished_inv fs c"
  then show ?thesis using Worker
    by (auto simp: worker_step_def finished_inv_def split: worker.splits list.splits)
qed

lemma finished_inv_run: "finished_inv fs c \<Longrightarrow> finished_inv fs (run E url idx sched c)"
  unfolding run_def by (induction sched arbitrary: c) (simp_all add: finished_inv_step)

lemma failures_concat_worker_events:
  "failures (concat (map (worker_events E url idx) ds)) =
     concat (map (\<lambda>d. case fst (pushLogToLoki E url d idx) of Some e \<Rightarrow> [e] | None \<Rightarrow> []) ds)"
  by (induction ds) simp_all

lemma all_Exited_busy: "list_all (\<lambda>w. w = Exited) ws \<Longrightarrow> busy ws = []"
  by (induction ws) auto

lemma main_parallel_env:
  "main_parallel (E\<lparr>json_Marshal := jm, unicode_ToLower := ul, http_NewRequest := nr, client_Do := cd\<rparr>) source
     = main_parallel E source"
proof -
  have "clearScroll (E\<lparr>json_Marshal := jm, unicode_ToLower := ul, http_NewRequest := nr, client_Do := cd\<rparr>) sid
      = clearScroll E sid" for sid
    by (simp add: clearScroll_def)
  note c = this
  obtain o1 sid body n where l: "queryAndPushLogsParallel_loop ErrInitialSearch source [] 0 = (o1, sid, body, n)"
    by (cases "queryAndPushLogsParallel_loop ErrInitialSearch source [] 0") auto
  show ?thesis
    by (cases o1 rule: outcome_cases)
       (simp_all add: main_parallel_def queryAndPushLogsParallel_def l c)
qed

lemma sequential_events_projections:
  "finished (sequential_events E url idx acts) = finished (emits acts)"
  "posts (emits acts) = [] \<Longrightarrow>
   posts (sequential_events E url idx acts) = posts (concat (map (worker_events E url idx) (sends acts)))"
proof -
  show "finished (sequential_events E url idx acts) = finished (emits acts)"
  proof (induction acts)
    case Nil
    then show ?case by simp
  next
    case (Cons a acts)
    then show ?case
      using finished_Cons [of _ "sequential_events E url idx acts"] finished_Cons [of _ "emits acts"]
      by (cases a) (simp_all add: sequential_events_def)
  qed
  show "posts (emits acts) = [] \<Longrightarrow>
   posts (sequential_events E url idx acts) = posts (concat (map (worker_events E url idx) (sends acts)))"
  proof (induction acts)
    case Nil
    then show ?case by simp
  next
    case (Cons a acts)
    show ?case
    proof (cases a)
      case (Emit e)
      with Cons.prems have "posts [e] = []" "posts (emits acts) = []"
        using posts_Cons [of e "emits acts"] by simp_all
      with Cons.IH Emit show ?thesis
        using posts_Cons [of e "sequential_events E url idx acts"] by simp
    next
      case (Send d)
      with Cons show ?thesis by simp
    next
      case CloseChan
      with Cons show ?thesis by (simp add: sequential_events_def)
    next
      case WaitWorkers
      with Cons show ?thesis by (simp add: sequential_events_def)
    qed
  qed
qed

lemma main_sequential_simulation:
  assumes "main_parallel E source = (out, acts)"
      and "\<forall>d\<in>set (sends acts). fst (pushLogToLoki E url d idx) = None"
  shows "fst (main_sequential E source url idx) = out"
    and "finished (snd (main_sequential E source url idx)) = finished (emits acts)"
    and "posts (snd (main_sequential E source url idx)) =
           posts (concat (map (worker_events E url idx) (sends acts)))"
proof -
  from main_parallel_script [OF assms(1)] obtain body sid where
    l: "queryAndPushLogsParallel_loop ErrInitialSearch source [] 0 = (out, sid, body, length (sends body))"
    and p: "plain body" and
    a: "acts = (case out of
                 Returned None \<Rightarrow>
                   body @ [CloseChan, WaitWorkers, Emit (Log (Finished (length (sends body))))]
                   @ map Emit (clearScroll E sid)
               | Returned (Some e) \<Rightarrow> body @ map Emit (clearScroll E sid) @ [Emit (Log (FatalTransfer e))]
               | Panicked \<Rightarrow> body @ map Emit (clearScroll E sid))"
    by blast
  have s: "sends acts = sends body"
    unfolding a by (cases out rule: outcome_cases) simp_all
  have ok: "\<forall>d\<in>set (sends body). fst (pushLogToLoki E url d idx) = None"
    using assms(2) s by simp
  note sim = loop_simulation [OF l ok, of "\<lparr>trace = [], processedCount = 0\<rparr>"]
  have q: "posts (emits body) = []" "finished (emits body) = []"
    using p by (simp_all add: plain_def)
  have f: "finished [Log (Finished k)] = [k]" "posts [Log (Finished k)] = []"
    "finished [Log (FatalTransfer e)] = []" "posts [Log (FatalTransfer e)] = []" for k e
    by (simp_all add: finished_def posts_def)
  note pr = sequential_events_projections [where E = E and url = url and idx = idx and acts = body]
  show "fst (main_sequential E source url idx) = out"
    by (cases out rule: outcome_cases)
       (simp_all add: main_sequential_def queryAndPushLogs_def sim)
  show "finished (snd (main_sequential E source url idx)) = finished (emits acts)"
    unfolding a using q f pr(1) finished_Cons [of _ "clearScroll E sid"]
    by (cases out rule: outcome_cases)
       (simp_all add: main_sequential_def queryAndPushLogs_def sim)
  show "posts (snd (main_sequential E source url idx)) =
           posts (concat (map (worker_events E url idx) (sends acts)))"
    unfolding s using q f pr(2)
    by (cases out rule: outcome_cases)
       (simp_all add: main_sequential_def queryAndPushLogs_def sim)
qed

lemma posts_handled_prefix:
  "prefix hs ds \<Longrightarrow>
   prefix (posts (concat (map (worker_events E url idx) hs)))
          (posts (concat (map (worker_events E url idx) ds)))"
  by (auto simp: prefix_def)

lemma closing_step: "closing c \<Longrightarrow> closing (step E url idx ch c)"
proof (cases ch)
  case Producer
  assume a: "closing c"
  show ?thesis
  proof (cases "script c")
    case Nil
    with a Producer show ?thesis by (simp add: producer_step_def)
  next
    case (Cons x r)
    with a Producer show ?thesis
      by (cases x) (auto simp: producer_step_def closing_def)
  qed
next
  case (Worker i)
  assume "closing c"
  then show ?thesis using Worker
    by (auto simp: worker_step_def closing_def split: worker.splits list.splits)
qed

lemma closing_run: "closing c \<Longrightarrow> closing (run E url idx sched c)"
  unfolding run_def by (induction sched arbitrary: c) (simp_all add: closing_step)

lemma close_before_wait_plain:
  "CloseChan \<notin> set a \<Longrightarrow> WaitWorkers \<notin> set a \<Longrightarrow> close_before_wait (a @ r) = close_before_wait r"
proof (induction a)
  case Nil
  then show ?case by simp
next
  case (Cons x a)
  then show ?case by (cases x) simp_all
qed

lemma closing_init:
  assumes "main_parallel E source = (out, acts)"
  shows "closing (pool_init workerCount acts)"
proof -
  from main_parallel_script [OF assms] obtain body sid where
    p: "plain body" and
    a: "acts = (case out of
                 Returned None \<Rightarrow>
                   body @ [CloseChan, WaitWorkers, Emit (Log (Finished (length (sends body))))]
                   @ map Emit (clearScroll E sid)
               | Returned (Some e) \<Rightarrow> body @ map Emit (clearScroll E sid) @ [Emit (Log (FatalTransfer e))]
               | Panicked \<Rightarrow> body @ map Emit (clearScroll E sid))"
    by blast
  have c: "CloseChan \<notin> set body" "WaitWorkers \<notin> set body" using p by (simp_all add: plain_def)
  have m: "close_before_wait (map Emit l @ r) = close_before_wait r" for l r
    by (rule close_before_wait_plain) auto
  have "close_before_wait acts"
    unfolding a using m [of "clearScroll E sid" "[]"] m [of "clearScroll E sid" "[Emit _]"]
    by (cases out rule: outcome_cases) (simp_all add: close_before_wait_plain [OF c])
  then show ?thesis by (simp add: closing_def pool_init_def)
qed

lemma sum_list_weight_update:
  "i < length ws \<Longrightarrow>
   sum_list (map worker_weight (ws[i := w])) + worker_weight (ws ! i) =
   sum_list (map worker_weight ws) + worker_weight w"
proof (induction ws arbitrary: i)
  case Nil
  then show ?case by simp
next
  case (Cons x xs)
  then show ?case by (cases i) simp_all
qed

lemma pool_measure_step:
  "step E url idx ch c \<noteq> c \<Longrightarrow> pool_measure (step E url idx ch c) < pool_measure c"
proof (cases ch)
  case Producer
  assume m: "step E url idx ch c \<noteq> c"
  show ?thesis
  proof (cases "script c")
    case Nil
    with m Producer show ?thesis by (simp add: producer_step_def)
  next
    case (Cons x r)
    with m Producer show ?thesis
      by (cases x) (auto simp: producer_step_def pool_measure_def split: if_splits)
  qed
next
  case (Worker i)
  assume m: "step E url idx ch c \<noteq> c"
  with Worker have i: "i < length (workers c)" and s: "script c \<noteq> []"
    by (auto simp: worker_step_def split: if_splits)
  note u = sum_list_weight_update [OF i]
  show ?thesis
  proof (cases "workers c ! i")
    case Idle
    show ?thesis
    proof (cases "chan c")
      case Nil
      with m Worker Idle i s have "closed c" by (auto simp: worker_step_def split: if_splits)
      with Nil Worker Idle i s u [of Exited] show ?thesis
        by (simp add: worker_step_def pool_measure_def worker_weight_def)
    next
      case (Cons d ds)
      with Worker Idle i s u [of "Busy d"] show ?thesis
        by (simp add: worker_step_def pool_measure_def worker_weight_def)
    qed
  next
    case (Busy d)
    with Worker i s u [of Idle] show ?thesis
      by (simp add: worker_step_def pool_measure_def worker_weight_def)
  next
    case Exited
    with m Worker i s show ?thesis by (simp add: worker_step_def)
  qed
qed

lemma pool_progress:
  assumes inv: "pool_inv M c" and cl: "closing c" and w: "0 < length (workers c)"
      and s: "script c \<noteq> []"
  shows "\<exists>ch. step E url idx ch c \<noteq> c"
proof -
  have prod: "\<exists>ch. step E url idx ch c \<noteq> c" if "script (producer_step c) \<noteq> script c"
  proof -
    from that have "step E url idx Producer c \<noteq> c" by auto
    then show ?thesis by blast
  qed
  have work: "\<exists>ch. step E url idx ch c \<noteq> c"
    if i: "i < length (workers c)" and e: "workers c ! i \<noteq> Exited"
      and ok: "chan c \<noteq> [] \<or> closed c \<or> workers c ! i \<noteq> Idle" for i
  proof -
    have "worker_step E url idx i c \<noteq> c"
    proof (cases "workers c ! i")
      case Idle
      show ?thesis
      proof (cases "chan c")
        case Nil
        with ok Idle have "closed c" by simp
        with Nil Idle i s have "workers (worker_step E url idx i c) ! i = Exited"
          by (simp add: worker_step_def)
        with Idle show ?thesis by auto
      next
        case (Cons d ds)
        with Idle i s have "chan (worker_step E url idx i c) = ds"
          by (simp add: worker_step_def)
        with Cons show ?thesis by auto
      qed
    next
      case (Busy d)
      with i s have "handled (worker_step E url idx i c) = handled c @ [d]"
        by (simp add: worker_step_def)
      then show ?thesis by auto
    next
      case Exited
      with e show ?thesis by simp
    qed
    then have "step E url idx (Worker i) c \<noteq> c" by simp
    then show ?thesis by blast
  qed
  from s obtain x r where sc: "script c = x # r" by (cases "script c") auto
  show ?thesis
  proof (cases x)
    case (Emit e)
    with sc show ?thesis by (intro prod) (simp add: producer_step_def)
  next
    case (Send d)
    show ?thesis
    proof (cases "length (chan c) < scrollBatchSize")
      case True
      with sc Send show ?thesis by (intro prod) (simp add: producer_step_def)
    next
      case False
      then have ne: "chan c \<noteq> []" by (auto simp: scrollBatchSize_def)
      with inv have "Exited \<notin> set (workers c)" by (auto simp: pool_inv_def)
      with w have "workers c ! 0 \<noteq> Exited" by (metis nth_mem)
      with w ne show ?thesis by (intro work [of 0]) simp_all
    qed
  next
    case CloseChan
    with sc show ?thesis by (intro prod) (simp add: producer_step_def)
  next
    case WaitWorkers
    with cl sc have c: "closed c" by (simp add: closing_def)
    show ?thesis
    proof (cases "list_all (\<lambda>w. w = Exited) (workers c)")
      case True
      with sc WaitWorkers show ?thesis by (intro prod) (simp add: producer_step_def)
    next
      case False
      then obtain i where "i < length (workers c)" "workers c ! i \<noteq> Exited"
        by (auto simp: list_all_length)
      with c show ?thesis by (intro work [of i]) simp_all
    qed
  qed
qed

lemma run_append: "run E url idx (a @ b) c = run E url idx b (run E url idx a c)"
  by (simp add: run_def)

lemma run_can_end:
  "pool_inv M c \<Longrightarrow> closing c \<Longrightarrow> 0 < length (workers c) \<Longrightarrow>
   \<exists>s. length s \<le> pool_measure c \<and> script (run E url idx s c) = []"
proof (induction "pool_measure c" arbitrary: c rule: less_induct)
  case less
  show ?case
  proof (cases "script c = []")
    case True
    then have "length [] \<le> pool_measure c \<and> script (run E url idx [] c) = []"
      by (simp add: run_def)
    then show ?thesis by blast
  next
    case False
    from pool_progress [OF less.prems False] obtain ch where m: "step E url idx ch c \<noteq> c"
      by blast
    let ?c = "step E url idx ch c"
    note d = pool_measure_step [OF m]
    have l: "0 < length (workers ?c)" using less.prems(3) by simp
    have "\<exists>s. length s \<le> pool_measure ?c \<and> script (run E url idx s ?c) = []"
      by (rule less.hyps [OF d pool_inv_step [OF less.prems(1)] closing_step [OF less.prems(2)] l])
    then obtain s where s: "length s \<le> pool_measure ?c" "script (run E url idx s ?c) = []"
      by blast
    have "length (ch # s) \<le> pool_measure c \<and> script (run E url idx (ch # s) c) = []"
      using s d by (simp add: run_def)
    then show ?thesis by blast
  qed
qed

lemma moves_bound:
  "moves E url idx s c \<Longrightarrow> length s + pool_measure (run E url idx s c) \<le> pool_measure c"
proof (induction s arbitrary: c)
  case Nil
  then show ?case by (simp add: run_def)
next
  case (Cons ch s)
  from Cons.prems have m: "step E url idx ch c \<noteq> c" and r: "moves E url idx s (step E url idx ch c)"
    by simp_all
  from Cons.IH [OF r] pool_measure_step [OF m] show ?case by (simp add: run_def)
qed

lemma first_failure_unique:
  "xs @ x # r = ys @ y # r' \<Longrightarrow> \<forall>a\<in>set xs. P a \<Longrightarrow> \<not> P x \<Longrightarrow> \<forall>a\<in>set ys. P a \<Longrightarrow> \<not> P y \<Longrightarrow>
   xs = ys \<and> x = y \<and> r = r'"
proof (induction xs arbitrary: ys)
  case Nil
  then show ?case by (cases ys) auto
next
  case (Cons a xs)
  show ?case
  proof (cases ys)
    case Nil
    with Cons.prems show ?thesis by auto
  next
    case (Cons b ys')
    with Cons.prems Cons.IH [of ys'] show ?thesis by auto
  qed
qed

lemma first_failure_later:
  "xs @ zs = good @ d # rest \<Longrightarrow> \<forall>a\<in>set xs. P a \<Longrightarrow> \<not> P d \<Longrightarrow>
   \<exists>g2. good = xs @ g2 \<and> zs = g2 @ d # rest"
proof (induction xs arbitrary: good)
  case Nil
  then show ?case by simp
next
  case (Cons a xs)
  show ?case
  proof (cases good)
    case Nil
    with Cons.prems show ?thesis by auto
  next
    case (Cons b good')
    with Cons.prems Cons.IH [of good'] show ?thesis by auto
  qed
qed

lemma main_callback_fail:
  "fst (pushLogToLoki E url d idx) = Some e \<Longrightarrow>
   main_callback E url idx d w = (Some e, w\<lparr>trace := trace w @ snd (pushLogToLoki E url d idx)\<rparr>)"
  by (cases "pushLogToLoki E url d idx") (simp add: main_callback_def)

lemma hits_first_failure:
  "queryAndPushLogsParallel_hits hits n = (p, acts, n') \<Longrightarrow>
   sends acts = good @ d # rest \<Longrightarrow>
   \<forall>g\<in>set good. fst (pushLogToLoki E url g idx) = None \<Longrightarrow>
   fst (pushLogToLoki E url d idx) = Some e \<Longrightarrow>
   \<exists>pre. plain pre \<and> sends pre = good \<and>
     queryAndPushLogs_hits (main_callback E url idx) hits w =
       (Some (Returned (Some (ErrCallback e))),
        w\<lparr>trace := trace w @ sequential_events E url idx pre @ snd (pushLogToLoki E url d idx),
          processedCount := processedCount w + length good\<rparr>)"
proof (induction hits arbitrary: n p acts n' w good)
  case Nil
  then show ?case by auto
next
  case (Cons hit hits)
  show ?case
  proof (cases "as_map hit")
    case None
    with Cons.prems show ?thesis by auto
  next
    case (Some h)
    show ?thesis
    proof (cases "as_map (index h ''_source'')")
      case None
      obtain p1 a1 n1 where r: "queryAndPushLogsParallel_hits hits n = (p1, a1, n1)"
        by (cases "queryAndPushLogsParallel_hits hits n") auto
      have a: "acts = Emit (Log (WarnNoSource hit)) # a1"
        using Cons.prems(1) Some None r by auto
      with Cons.prems(2) have s: "sends a1 = good @ d # rest" by simp
      let ?w = "w\<lparr>trace := trace w @ [Log (WarnNoSource hit)]\<rparr>"
      from Cons.IH [OF r s Cons.prems(3,4), of ?w] obtain pre where
        pre: "plain pre" "sends pre = good"
        "queryAndPushLogs_hits (main_callback E url idx) hits ?w =
           (Some (Returned (Some (ErrCallback e))),
            ?w\<lparr>trace := trace ?w @ sequential_events E url idx pre @ snd (pushLogToLoki E url d idx),
               processedCount := processedCount ?w + length good\<rparr>)"
        by blast
      have "plain (Emit (Log (WarnNoSource hit)) # pre) \<and> sends (Emit (Log (WarnNoSource hit)) # pre) = good \<and>
        queryAndPushLogs_hits (main_callback E url idx) (hit # hits) w =
          (Some (Returned (Some (ErrCallback e))),
           w\<lparr>trace := trace w @ sequential_events E url idx (Emit (Log (WarnNoSource hit)) # pre)
                        @ snd (pushLogToLoki E url d idx),
             processedCount := processedCount w + length good\<rparr>)"
        using pre Some None by simp
      then show ?thesis by blast
    next
      case (Some logDoc)
      obtain p1 a1 n1 where r: "queryAndPushLogsParallel_hits hits (n + 1) = (p1, a1, n1)"
        by (cases "queryAndPushLogsParallel_hits hits (n + 1)") auto
      have a: "acts = Send logDoc # a1"
        using Cons.prems(1) \<open>as_map hit = Some h\<close> Some r by auto
      with Cons.prems(2) have s: "logDoc # sends a1 = good @ d # rest" by simp
      show ?thesis
      proof (cases good)
        case Nil
        with s have l: "logDoc = d" by simp
        have "plain [] \<and> sends [] = good \<and>
          queryAndPushLogs_hits (main_callback E url idx) (hit # hits) w =
            (Some (Returned (Some (ErrCallback e))),
             w\<lparr>trace := trace w @ sequential_events E url idx [] @ snd (pushLogToLoki E url d idx),
               processedCount := processedCount w + length good\<rparr>)"
          using Nil l \<open>as_map hit = Some h\<close> Some
          by (simp add: main_callback_fail [OF Cons.prems(4)])
        then show ?thesis by blast
      next
        case (Cons g good')
        with s have l: "logDoc = g" and s': "sends a1 = good' @ d # rest" by simp_all
        from Cons.prems(3) Cons have ok: "fst (pushLogToLoki E url g idx) = None"
          and oks: "\<forall>g\<in>set good'. fst (pushLogToLoki E url g idx) = None" by simp_all
        let ?w = "w\<lparr>trace := trace w @ snd (pushLogToLoki E url g idx),
                     processedCount := processedCount w + 1\<rparr>"
        from Cons.IH [OF r s' oks Cons.prems(4), of ?w] obtain pre where
          pre: "plain pre" "sends pre = good'"
          "queryAndPushLogs_hits (main_callback E url idx) hits ?w =
             (Some (Returned (Some (ErrCallback e))),
              ?w\<lparr>trace := trace ?w @ sequential_events E url idx pre @ snd (pushLogToLoki E url d idx),
                 processedCount := processedCount ?w + length good'\<rparr>)"
          by blast
        have "plain (Send g # pre) \<and> sends (Send g # pre) = good \<and>
          queryAndPushLogs_hits (main_callback E url idx) (hit # hits) w =
            (Some (Returned (Some (ErrCallback e))),
             w\<lparr>trace := trace w @ sequential_events E url idx (Send g # pre)
                          @ snd (pushLogToLoki E url d idx),
               processedCount := processedCount w + length good\<rparr>)"
          using pre Cons l \<open>as_map hit = Some h\<close> Some
          by (simp add: main_callback_ok [OF ok])
        then show ?thesis by blast
      qed
    qed
  qed
qed

lemma loop_first_failure:
  "queryAndPushLogsParallel_loop e0 source scrollID n = (out, sid, acts, n') \<Longrightarrow>
   sends acts = good @ d # rest \<Longrightarrow>
   \<forall>g\<in>set good. fst (pushLogToLoki E url g idx) = None \<Longrightarrow>
   fst (pushLogToLoki E url d idx) = Some e \<Longrightarrow>
   \<exists>pre sid'. plain pre \<and> sends pre = good \<and>
     queryAndPushLogs_loop (main_callback E url idx) e0 source scrollID w =
       (Returned (Some (ErrCallback e)), sid',
        w\<lparr>trace := trace w @ sequential_events E url idx pre @ snd (pushLogToLoki E url d idx),
          processedCount := processedCount w + length good\<rparr>)"
proof (induction e0 source scrollID n arbitrary: out sid acts n' w good
       rule: queryAndPushLogsParallel_loop.induct)
  case (1 e scrollID n)
  then show ?case by auto
next
  case (2 e rest scrollID n)
  then show ?case by auto
next
  case (3 e0 status body rest' scrollID n)
  show ?case
  proof (cases "read_page status body scrollID")
    case (Stop o1 s1)
    with 3(2,3) show ?thesis by auto
  next
    case (Hits s1 hits)
    obtain p a1 n1 where h: "queryAndPushLogsParallel_hits hits n = (p, a1, n1)"
      by (cases "queryAndPushLogsParallel_hits hits n") auto
    note hp = hits_script [OF h]
    obtain o2 s2 a2 n2 where
      l: "queryAndPushLogsParallel_loop ErrScrollRequest rest' s1 n1 = (o2, s2, a2, n2)"
      by (cases "queryAndPushLogsParallel_loop ErrScrollRequest rest' s1 n1") auto
    have acts: "acts = (if p then a1 else a1 @ a2)"
      using 3(2) Hits h l by (cases p) auto
    then obtain zs where z: "sends acts = sends a1 @ zs" "\<not> p \<longrightarrow> zs = sends a2" "p \<longrightarrow> zs = []"
      by (cases p) auto
    show ?thesis
    proof (cases "\<forall>x\<in>set (sends a1). fst (pushLogToLoki E url x idx) = None")
      case True
      have nd: "\<not> (\<lambda>x. fst (pushLogToLoki E url x idx) = None) d" using 3(5) by simp
      from first_failure_later [of "sends a1" zs good d rest, OF _ True nd] z(1) 3(3)
      obtain g2 where g2: "good = sends a1 @ g2" "zs = g2 @ d # rest" by auto
      with z have np: "\<not> p" by auto
      with z g2 have s2: "sends a2 = g2 @ d # rest" by simp
      from 3(4) g2 have ok2: "\<forall>g\<in>set g2. fst (pushLogToLoki E url g idx) = None" by simp
      note hs = hits_simulation [OF h True, of w]
      let ?w = "w\<lparr>trace := trace w @ sequential_events E url idx a1,
                   processedCount := processedCount w + length (sends a1)\<rparr>"
      from 3(1) [OF Hits _ _ _ l s2 ok2 3(5), of p "(a1, n1)" a1 ?w] h np
      obtain pre sid' where
        pre: "plain pre" "sends pre = g2"
        "queryAndPushLogs_loop (main_callback E url idx) ErrScrollRequest rest' s1 ?w =
           (Returned (Some (ErrCallback e)), sid',
            ?w\<lparr>trace := trace ?w @ sequential_events E url idx pre @ snd (pushLogToLoki E url d idx),
               processedCount := processedCount ?w + length g2\<rparr>)"
        by auto
      have "plain (a1 @ pre) \<and> sends (a1 @ pre) = good \<and>
        queryAndPushLogs_loop (main_callback E url idx) e0 (HttpResponse status body # rest') scrollID w =
          (Returned (Some (ErrCallback e)), sid',
           w\<lparr>trace := trace w @ sequential_events E url idx (a1 @ pre) @ snd (pushLogToLoki E url d idx),
             processedCount := processedCount w + length good\<rparr>)"
        using pre hp g2 Hits hs np by simp
      then show ?thesis by blast
    next
      case False
      then have "\<exists>x\<in>set (sends a1). fst (pushLogToLoki E url x idx) \<noteq> None" by simp
      from split_list_first_prop [OF this] obtain g1 d1 r1 where
        sp: "sends a1 = g1 @ d1 # r1" "fst (pushLogToLoki E url d1 idx) \<noteq> None"
        "\<forall>y\<in>set g1. fst (pushLogToLoki E url y idx) = None"
        by auto
      have nd: "\<not> (\<lambda>x. fst (pushLogToLoki E url x idx) = None) d" using 3(5) by simp
      have "g1 @ d1 # (r1 @ zs) = good @ d # rest" using z(1) 3(3) sp(1) by simp
      from first_failure_unique [OF this sp(3) _ 3(4) nd] sp(2)
      have eq: "g1 = good" "d1 = d" by simp_all
      from hits_first_failure [OF h _ 3(4,5), of r1 w] sp(1) eq obtain pre where
        pre: "plain pre" "sends pre = good"
        "queryAndPushLogs_hits (main_callback E url idx) hits w =
           (Some (Returned (Some (ErrCallback e))),
            w\<lparr>trace := trace w @ sequential_events E url idx pre @ snd (pushLogToLoki E url d idx),
              processedCount := processedCount w + length good\<rparr>)"
        by auto
      have "plain pre \<and> sends pre = good \<and>
        queryAndPushLogs_loop (main_callback E url idx) e0 (HttpResponse status body # rest') scrollID w =
          (Returned (Some (ErrCallback e)), s1,
           w\<lparr>trace := trace w @ sequential_events E url idx pre @ snd (pushLogToLoki E url d idx),
             processedCount := processedCount w + length good\<rparr>)"
        using pre Hits by simp
      then show ?thesis by blast
    qed
  qed
qed

lemma loop_no_callback_error:
  "queryAndPushLogsParallel_loop e0 source scrollID n = (out, sid, acts, n') \<Longrightarrow>
   e0 \<noteq> ErrCallback x \<Longrightarrow> out \<noteq> Returned (Some (ErrCallback x))"
proof (induction e0 source scrollID n arbitrary: out sid acts n'
       rule: queryAndPushLogsParallel_loop.induct)
  case (1 e scrollID n)
  then show ?case by auto
next
  case (2 e rest scrollID n)
  then show ?case by auto
next
  case (3 e0 status body rest' scrollID n)
  show ?case
  proof (cases "read_page status body scrollID")
    case (Stop o1 s1)
    then have "o1 \<noteq> Returned (Some (ErrCallback x))"
      by (auto simp: read_page_def Let_def split: if_splits option.splits)
    with 3(2) Stop show ?thesis by auto
  next
    case (Hits s1 hits)
    obtain p a1 n1 where h: "queryAndPushLogsParallel_hits hits n = (p, a1, n1)"
      by (cases "queryAndPushLogsParallel_hits hits n") auto
    obtain o2 s2 a2 n2 where
      l: "queryAndPushLogsParallel_loop ErrScrollRequest rest' s1 n1 = (o2, s2, a2, n2)"
      by (cases "queryAndPushLogsParallel_loop ErrScrollRequest rest' s1 n1") auto
    show ?thesis
    proof (cases p)
      case True
      with 3(2) Hits h show ?thesis by auto
    next
      case False
      have "o2 \<noteq> Returned (Some (ErrCallback x))"
        using 3(1) [OF Hits _ _ _ l] h False by auto
      with 3(2) Hits h l False show ?thesis by auto
    qed
  qed
qed

lemma sequential_events_failures:
  "failures (sequential_events E url idx acts) = failures (emits acts)"
proof (induction acts)
  case Nil
  then show ?case by simp
next
  case (Cons a acts)
  then show ?case
    using failures_Cons [of _ "sequential_events E url idx acts"] failures_Cons [of _ "emits acts"]
    by (cases a) (simp_all add: sequential_events_def)
qed

lemma main_sequential_first_failure:
  assumes "main_parallel E source = (out, acts)"
      and "sends acts = good @ d # rest"
      and "\<forall>g\<in>set good. fst (pushLogToLoki E url g idx) = None"
      and "fst (pushLogToLoki E url d idx) = Some e"
  shows "fst (main_sequential E source url idx) = Returned (Some (ErrCallback e))"
    and "finished (snd (main_sequential E source url idx)) = []"
    and "failures (snd (main_sequential E source url idx)) = []"
    and "posts (snd (main_sequential E source url idx)) =
           posts (concat (map (worker_events E url idx) (good @ [d])))"
    and "last (snd (main_sequential E source url idx)) = Log (FatalTransfer (ErrCallback e))"
    and "processedCount (snd (queryAndPushLogs E source (main_callback E url idx)
                                \<lparr>trace = [], processedCount = 0\<rparr>)) = length good"
    and "out \<noteq> Returned (Some (ErrCallback e))"
proof -
  from main_parallel_script [OF assms(1)] obtain body sid where
    l: "queryAndPushLogsParallel_loop ErrInitialSearch source [] 0 = (out, sid, body, length (sends body))"
    and a: "acts = (case out of
                 Returned None \<Rightarrow>
                   body @ [CloseChan, WaitWorkers, Emit (Log (Finished (length (sends body))))]
                   @ map Emit (clearScroll E sid)
               | Returned (Some e) \<Rightarrow> body @ map Emit (clearScroll E sid) @ [Emit (Log (FatalTransfer e))]
               | Panicked \<Rightarrow> body @ map Emit (clearScroll E sid))"
    by blast
  have s: "sends acts = sends body"
    unfolding a by (cases out rule: outcome_cases) simp_all
  with assms(2) have sb: "sends body = good @ d # rest" by simp
  from loop_first_failure [OF l sb assms(3,4), of "\<lparr>trace = [], processedCount = 0\<rparr>"]
  obtain pre sid' where pre: "plain pre" "sends pre = good" and
    q: "queryAndPushLogs_loop (main_callback E url idx) ErrInitialSearch source []
          \<lparr>trace = [], processedCount = 0\<rparr> =
        (Returned (Some (ErrCallback e)), sid',
         \<lparr>trace = sequential_events E url idx pre @ snd (pushLogToLoki E url d idx),
          processedCount = length good\<rparr>)"
    by auto
  have m: "main_sequential E source url idx =
      (Returned (Some (ErrCallback e)),
       sequential_events E url idx pre @ snd (pushLogToLoki E url d idx) @ clearScroll E sid'
       @ [Log (FatalTransfer (ErrCallback e))])"
    by (simp add: main_sequential_def queryAndPushLogs_def q)
  have f: "finished [Log (FatalTransfer x)] = []" "posts [Log (FatalTransfer x)] = []"
    "failures [Log (FatalTransfer x)] = []" for x
    by (simp_all add: finished_def posts_def failures_def)
  have pq: "posts (emits pre) = []" "finished (emits pre) = []" "failures (emits pre) = []"
    using pre(1) by (simp_all add: plain_def)
  note pr = sequential_events_projections [where E = E and url = url and idx = idx and acts = pre]
  show "fst (main_sequential E source url idx) = Returned (Some (ErrCallback e))"
    by (simp add: m)
  show "finished (snd (main_sequential E source url idx)) = []"
    by (simp add: m f pr(1) pq)
  show "failures (snd (main_sequential E source url idx)) = []"
    by (simp add: m f sequential_events_failures pq)
  show "posts (snd (main_sequential E source url idx)) =
           posts (concat (map (worker_events E url idx) (good @ [d])))"
    using pr(2) [OF pq(1)] by (simp add: m f pre(2))
  show "last (snd (main_sequential E source url idx)) = Log (FatalTransfer (ErrCallback e))"
    by (simp add: m)
  show "processedCount (snd (queryAndPushLogs E source (main_callback E url idx)
                                \<lparr>trace = [], processedCount = 0\<rparr>)) = length good"
    by (simp add: queryAndPushLogs_def q)
  show "out \<noteq> Returned (Some (ErrCallback e))"
    by (rule loop_no_callback_error [OF l]) simp
qed

lemma main_sequential_count:
  assumes "main_parallel E source = (out, acts)"
      and "\<forall>d\<in>set (sends acts). fst (pushLogToLoki E url d idx) = None"
  shows "processedCount (snd (queryAndPushLogs E source (main_callback E url idx)
                                \<lparr>trace = [], processedCount = 0\<rparr>)) = length (sends acts)"
proof -
  from main_parallel_script [OF assms(1)] obtain body sid where
    l: "queryAndPushLogsParallel_loop ErrInitialSearch source [] 0 = (out, sid, body, length (sends body))"
    and a: "acts = (case out of
                 Returned None \<Rightarrow>
                   body @ [CloseChan, WaitWorkers, Emit (Log (Finished (length (sends body))))]
                   @ map Emit (clearScroll E sid)
               | Returned (Some e) \<Rightarrow> body @ map Emit (clearScroll E sid) @ [Emit (Log (FatalTransfer e))]
               | Panicked \<Rightarrow> body @ map Emit (clearScroll E sid))"
    by blast
  have s: "sends acts = sends body"
    unfolding a by (cases out rule: outcome_cases) simp_all
  have ok: "\<forall>d\<in>set (sends body). fst (pushLogToLoki E url d idx) = None"
    using assms(2) s by simp
  note sim = loop_simulation [OF l ok, of "\<lparr>trace = [], processedCount = 0\<rparr>"]
  show ?thesis by (simp add: queryAndPushLogs_def sim s)
qed

text \<open>
  Claim C1, as amended.

  The worker-pool pipeline with at least one worker, for any source, any answers of the
  endpoint and any schedule. The outcome of the run and the actions of the main goroutine
  do not depend on what normalisation and delivery do. The count is logged exactly when
  the run ends without error, and it is the number of documents sent on the channel,
  whatever became of them. At every moment the documents handled are among those sent,
  and the trace holds one "failed to push" line for each handled document whose
  \<^verbatim>\<open>pushLogToLoki\<close> returned an error and none for the others: a worker logs the error
  after the events of the call and takes the next document. When the run has ended
  without error, every document sent has been handled exactly once. A hit that is an
  object without an object \<^verbatim>\<open>_source\<close> adds one warning and no send, and the loop goes on
  with the next hit. The run ends: while the main goroutine has actions left some
  goroutine can move, every move lowers \<open>pool_measure\<close>, from every state reached there is a
  continuation of at most \<open>pool_measure\<close> steps after which the main goroutine has done its
  last action, and no continuation has more than \<open>pool_measure\<close> moves.

  The sequential pipeline on the same source. A hit without an object \<^verbatim>\<open>_source\<close> is
  skipped likewise. When \<^verbatim>\<open>pushLogToLoki\<close> returns nil on every document, the outcome is that
  of the worker-pool pipeline and the count is the number of documents. Otherwise, at the
  first document on which it returns an error the run ends with that error wrapped as
  the callback's, \<^verbatim>\<open>log.Fatalf\<close> is the last event, no count and no "failed to push" line is
  logged, the POSTs made are those of the documents up to that one, and \<^verbatim>\<open>processedCount\<close>
  is the number of documents before it, all delivered.
\<close>

theorem C1_worker_pool_skips_and_counts:
  assumes "main_parallel E source = (out, acts)"
      and "0 < workerCount"
      and "c = run E lokiPushURL idx sched (pool_init workerCount acts)"
  shows "main_parallel (E\<lparr>json_Marshal := jm, unicode_ToLower := ul, http_NewRequest := nr,
                          client_Do := cd\<rparr>) source = (out, acts)
     \<and> finished (emits acts) = (if out = Returned None then [length (sends acts)] else [])
     \<and> mset (handled c) \<subseteq># mset (sends acts)
     \<and> failures (ptrace c) =
          concat (map (\<lambda>d. case fst (pushLogToLoki E lokiPushURL d idx) of Some e \<Rightarrow> [e] | None \<Rightarrow> [])
                   (handled c))
     \<and> (out = Returned None \<and> script c = [] \<longrightarrow>
          mset (handled c) = mset (sends acts) \<and> finished (ptrace c) = [length (sends acts)])
     \<and> (\<forall>h hits n. as_map (index h ''_source'') = None \<longrightarrow>
          queryAndPushLogsParallel_hits (JObj h # hits) n =
            (case queryAndPushLogsParallel_hits hits n of
               (p, a, n') \<Rightarrow> (p, Emit (Log (WarnNoSource (JObj h))) # a, n')))
     \<and> (\<forall>d. worker_events E lokiPushURL idx d =
            snd (pushLogToLoki E lokiPushURL d idx)
            @ (case fst (pushLogToLoki E lokiPushURL d idx) of Some e \<Rightarrow> [Log (FailedPush e)] | None \<Rightarrow> []))
     \<and> (script c \<noteq> [] \<longrightarrow> (\<exists>ch. step E lokiPushURL idx ch c \<noteq> c))
     \<and> (\<forall>ch. step E lokiPushURL idx ch c \<noteq> c \<longrightarrow>
            pool_measure (step E lokiPushURL idx ch c) < pool_measure c)
     \<and> (\<exists>sched'. length sched' \<le> pool_measure c
            \<and> script (run E lokiPushURL idx (sched @ sched') (pool_init workerCount acts)) = [])
     \<and> (\<forall>sched'. moves E lokiPushURL idx sched' c \<longrightarrow> length sched' \<le> pool_measure c)
     \<and> (\<forall>h hits cb w. as_map (index h ''_source'') = None \<longrightarrow>
          queryAndPushLogs_hits cb (JObj h # hits) w =
            queryAndPushLogs_hits cb hits (w\<lparr>trace := trace w @ [Log (WarnNoSource (JObj h))]\<rparr>))
     \<and> ((\<forall>d\<in>set (sends acts). fst (pushLogToLoki E lokiPushURL d idx) = None) \<longrightarrow>
          fst (main_sequential E source lokiPushURL idx) = out
          \<and> finished (snd (main_sequential E source lokiPushURL idx)) =
              (if out = Returned None then [length (sends acts)] else [])
          \<and> processedCount (snd (queryAndPushLogs E source (main_callback E lokiPushURL idx)
                                    \<lparr>trace = [], processedCount = 0\<rparr>)) = length (sends acts))
     \<and> (\<forall>good d rest e.
          sends acts = good @ d # rest
          \<and> (\<forall>g\<in>set good. fst (pushLogToLoki E lokiPushURL g idx) = None)
          \<and> fst (pushLogToLoki E lokiPushURL d idx) = Some e \<longrightarrow>
          fst (main_sequential E source lokiPushURL idx) = Returned (Some (ErrCallback e))
          \<and> last (snd (main_sequential E source lokiPushURL idx)) = Log (FatalTransfer (ErrCallback e))
          \<and> finished (snd (main_sequential E source lokiPushURL idx)) = []
          \<and> failures (snd (main_sequential E source lokiPushURL idx)) = []
          \<and> posts (snd (main_sequential E source lokiPushURL idx)) =
              posts (concat (map (worker_events E lokiPushURL idx) (good @ [d])))
          \<and> processedCount (snd (queryAndPushLogs E source (main_callback E lokiPushURL idx)
                                    \<lparr>trace = [], processedCount = 0\<rparr>)) = length good)"
proof -
  note i = pool_init_invariants [OF assms(1)]
  note f = main_parallel_facts [OF assms(1)]
  have pi: "pool_inv (mset (sends acts)) c"
    unfolding assms(3) by (rule pool_inv_run [OF i(1)])
  have ti: "trace_inv E lokiPushURL idx c"
    unfolding assms(3) by (rule trace_inv_run [OF i(2)])
  have fi: "finished_inv (finished (emits acts)) c"
    unfolding assms(3) by (rule finished_inv_run) (simp add: finished_inv_def pool_init_def finished_def)
  have ci: "closing c"
    unfolding assms(3) by (rule closing_run [OF closing_init [OF assms(1)]])
  have len: "length (workers c) = workerCount"
    unfolding assms(3) by (simp add: pool_init_def)
  have wl: "0 < length (workers c)" using len assms(2) by simp
  have c1: "main_parallel (E\<lparr>json_Marshal := jm, unicode_ToLower := ul, http_NewRequest := nr,
                          client_Do := cd\<rparr>) source = (out, acts)"
    using assms(1) by (simp only: main_parallel_env)
  have c3: "mset (handled c) \<subseteq># mset (sends acts)"
  proof -
    from pi have "mset (sends acts) =
        mset (handled c) + (mset (busy (workers c)) + mset (chan c) + mset (sends (script c)))"
      by (simp add: pool_inv_def ac_simps)
    then show ?thesis by (metis mset_subset_eq_add_left)
  qed
  have c4: "failures (ptrace c) =
          concat (map (\<lambda>d. case fst (pushLogToLoki E lokiPushURL d idx) of Some e \<Rightarrow> [e] | None \<Rightarrow> [])
                   (handled c))"
    using ti by (simp add: trace_inv_def failures_concat_worker_events)
  have c5: "out = Returned None \<and> script c = [] \<longrightarrow>
          mset (handled c) = mset (sends acts) \<and> finished (ptrace c) = [length (sends acts)]"
  proof (intro impI, elim conjE)
    assume ok: "out = Returned None" and fin: "script c = []"
    have "waited c" unfolding assms(3) by (rule waited_run [OF i(3) [OF ok]])
    with fin have ex: "list_all (\<lambda>w. w = Exited) (workers c)" by (simp add: waited_def)
    with wl have "Exited \<in> set (workers c)"
      by (cases "workers c") auto
    with pi have "chan c = []" by (simp add: pool_inv_def)
    with pi fin all_Exited_busy [OF ex] have "mset (handled c) = mset (sends acts)"
      by (simp add: pool_inv_def)
    moreover have "finished (ptrace c) = [length (sends acts)]"
      using fi fin f(5) ok by (simp add: finished_inv_def)
    ultimately show "mset (handled c) = mset (sends acts) \<and> finished (ptrace c) = [length (sends acts)]"
      by simp
  qed
  have c6: "\<forall>h hits n. as_map (index h ''_source'') = None \<longrightarrow>
          queryAndPushLogsParallel_hits (JObj h # hits) n =
            (case queryAndPushLogsParallel_hits hits n of
               (p, a, n') \<Rightarrow> (p, Emit (Log (WarnNoSource (JObj h))) # a, n'))"
    by simp
  have c7: "\<forall>d. worker_events E lokiPushURL idx d =
            snd (pushLogToLoki E lokiPushURL d idx)
            @ (case fst (pushLogToLoki E lokiPushURL d idx) of Some e \<Rightarrow> [Log (FailedPush e)] | None \<Rightarrow> [])"
  proof
    fix d
    show "worker_events E lokiPushURL idx d =
            snd (pushLogToLoki E lokiPushURL d idx)
            @ (case fst (pushLogToLoki E lokiPushURL d idx) of Some e \<Rightarrow> [Log (FailedPush e)] | None \<Rightarrow> [])"
      by (cases "pushLogToLoki E lokiPushURL d idx") (simp add: worker_events_def split: option.splits)
  qed
  have c8: "script c \<noteq> [] \<longrightarrow> (\<exists>ch. step E lokiPushURL idx ch c \<noteq> c)"
    using pool_progress [OF pi ci wl] by blast
  have c9: "\<forall>ch. step E lokiPushURL idx ch c \<noteq> c \<longrightarrow>
            pool_measure (step E lokiPushURL idx ch c) < pool_measure c"
    using pool_measure_step by blast
  have c10: "\<exists>sched'. length sched' \<le> pool_measure c
            \<and> script (run E lokiPushURL idx (sched @ sched') (pool_init workerCount acts)) = []"
    using run_can_end [OF pi ci wl, of E lokiPushURL idx]
    unfolding run_append assms(3) [symmetric] .
  have c10b: "\<forall>sched'. moves E lokiPushURL idx sched' c \<longrightarrow> length sched' \<le> pool_measure c"
  proof (intro allI impI)
    fix sched'
    assume "moves E lokiPushURL idx sched' c"
    from moves_bound [OF this] show "length sched' \<le> pool_measure c" by simp
  qed
  have c11: "\<forall>h hits cb w. as_map (index h ''_source'') = None \<longrightarrow>
          queryAndPushLogs_hits cb (JObj h # hits) w =
            queryAndPushLogs_hits cb hits (w\<lparr>trace := trace w @ [Log (WarnNoSource (JObj h))]\<rparr>)"
    by simp
  have c12: "(\<forall>d\<in>set (sends acts). fst (pushLogToLoki E lokiPushURL d idx) = None) \<longrightarrow>
          fst (main_sequential E source lokiPushURL idx) = out
          \<and> finished (snd (main_sequential E source lokiPushURL idx)) =
              (if out = Returned None then [length (sends acts)] else [])
          \<and> processedCount (snd (queryAndPushLogs E source (main_callback E lokiPushURL idx)
                                    \<lparr>trace = [], processedCount = 0\<rparr>)) = length (sends acts)"
  proof
    assume ok: "\<forall>d\<in>set (sends acts). fst (pushLogToLoki E lokiPushURL d idx) = None"
    note m = main_sequential_simulation [OF assms(1) ok]
    show "fst (main_sequential E source lokiPushURL idx) = out
          \<and> finished (snd (main_sequential E source lokiPushURL idx)) =
              (if out = Returned None then [length (sends acts)] else [])
          \<and> processedCount (snd (queryAndPushLogs E source (main_callback E lokiPushURL idx)
                                    \<lparr>trace = [], processedCount = 0\<rparr>)) = length (sends acts)"
      using m(1) m(2) f(5) main_sequential_count [OF assms(1) ok] by simp
  qed
  have c13: "\<forall>good d rest e.
          sends acts = good @ d # rest
          \<and> (\<forall>g\<in>set good. fst (pushLogToLoki E lokiPushURL g idx) = None)
          \<and> fst (pushLogToLoki E lokiPushURL d idx) = Some e \<longrightarrow>
          fst (main_sequential E source lokiPushURL idx) = Returned (Some (ErrCallback e))
          \<and> last (snd (main_sequential E source lokiPushURL idx)) = Log (FatalTransfer (ErrCallback e))
          \<and> finished (snd (main_sequential E source lokiPushURL idx)) = []
          \<and> failures (snd (main_sequential E source lokiPushURL idx)) = []
          \<and> posts (snd (main_sequential E source lokiPushURL idx)) =
              posts (concat (map (worker_events E lokiPushURL idx) (good @ [d])))
          \<and> processedCount (snd (queryAndPushLogs E source (main_callback E lokiPushURL idx)
                                    \<lparr>trace = [], processedCount = 0\<rparr>)) = length good"
  proof (intro allI impI, elim conjE)
    fix good d rest e
    assume a: "sends acts = good @ d # rest"
      "\<forall>g\<in>set good. fst (pushLogToLoki E lokiPushURL g idx) = None"
      "fst (pushLogToLoki E lokiPushURL d idx) = Some e"
    note m = main_sequential_first_failure [OF assms(1) a]
    show "fst (main_sequential E source lokiPushURL idx) = Returned (Some (ErrCallback e))
          \<and> last (snd (main_sequential E source lokiPushURL idx)) = Log (FatalTransfer (ErrCallback e))
          \<and> finished (snd (main_sequential E source lokiPushURL idx)) = []
          \<and> failures (snd (main_sequential E source lokiPushURL idx)) = []
          \<and> posts (snd (main_sequential E source lokiPushURL idx)) =
              posts (concat (map (worker_events E lokiPushURL idx) (good @ [d])))
          \<and> processedCount (snd (queryAndPushLogs E source (main_callback E lokiPushURL idx)
                                    \<lparr>trace = [], processedCount = 0\<rparr>)) = length good"
      by (intro conjI) (rule m)+
  qed
  show ?thesis
    by (intro conjI) (rule c1 f(5) c3 c4 c5 c6 c7 c8 c9 c10 c10b c11 c12 c13)+
qed

text \<open>
  Claim C2, as amended. A pool of one worker handles the documents in the order they were
  sent, and its run can always be continued to its end. When \<^verbatim>\<open>pushLogToLoki\<close> returns nil
  on every document the worker-pool pipeline sends on the channel, the sequential pipeline
  returns the same outcome, logs the same final count (none on an error), and POSTs the
  requests of those documents in the order they were sent: at every moment the POSTs of
  the pool of one are a prefix of the sequential pipeline's, and when the run has ended
  without error they are the same, with the same count. When \<^verbatim>\<open>pushLogToLoki\<close> returns an
  error on some document, the sequential pipeline ends at the first such document with
  the callback's error, which the worker-pool pipeline never returns, logs no count, has
  POSTed the documents up to that one and counted those before it; the pool of one, when
  its run has ended without error, has handled and POSTed every document sent, logged
  each error and the count of the documents sent.
\<close>

theorem C2_pool_of_one_matches_sequential_without_document_errors:
  assumes "main_parallel E source = (out, acts)"
      and "c = run E lokiPushURL idx sched (pool_init 1 acts)"
  shows "prefix (handled c) (sends acts)
     \<and> (out = Returned None \<and> script c = [] \<longrightarrow>
          handled c = sends acts
          \<and> finished (ptrace c) = [length (sends acts)]
          \<and> posts (ptrace c) = posts (concat (map (worker_events E lokiPushURL idx) (sends acts)))
          \<and> failures (ptrace c) =
              concat (map (\<lambda>d. case fst (pushLogToLoki E lokiPushURL d idx) of Some e \<Rightarrow> [e] | None \<Rightarrow> [])
                       (sends acts)))
     \<and> (\<exists>sched'. length sched' \<le> pool_measure c
            \<and> script (run E lokiPushURL idx (sched @ sched') (pool_init 1 acts)) = [])
     \<and> ((\<forall>d\<in>set (sends acts). fst (pushLogToLoki E lokiPushURL d idx) = None) \<longrightarrow>
          fst (main_sequential E source lokiPushURL idx) = out
          \<and> finished (snd (main_sequential E source lokiPushURL idx)) = finished (emits acts)
          \<and> posts (snd (main_sequential E source lokiPushURL idx)) =
               posts (concat (map (worker_events E lokiPushURL idx) (sends acts)))
          \<and> prefix (posts (ptrace c)) (posts (snd (main_sequential E source lokiPushURL idx)))
          \<and> (out = Returned None \<and> script c = [] \<longrightarrow>
               handled c = sends acts
               \<and> posts (ptrace c) = posts (snd (main_sequential E source lokiPushURL idx))
               \<and> finished (ptrace c) = finished (snd (main_sequential E source lokiPushURL idx))))
     \<and> (\<forall>good d rest e.
          sends acts = good @ d # rest
          \<and> (\<forall>g\<in>set good. fst (pushLogToLoki E lokiPushURL g idx) = None)
          \<and> fst (pushLogToLoki E lokiPushURL d idx) = Some e \<longrightarrow>
          fst (main_sequential E source lokiPushURL idx) = Returned (Some (ErrCallback e))
          \<and> out \<noteq> Returned (Some (ErrCallback e))
          \<and> finished (snd (main_sequential E source lokiPushURL idx)) = []
          \<and> posts (snd (main_sequential E source lokiPushURL idx)) =
              posts (concat (map (worker_events E lokiPushURL idx) (good @ [d])))
          \<and> processedCount (snd (queryAndPushLogs E source (main_callback E lokiPushURL idx)
                                    \<lparr>trace = [], processedCount = 0\<rparr>)) = length good)"
proof -
  note i = pool_init_invariants [OF assms(1)]
  note f = main_parallel_facts [OF assms(1)]
  have pi: "pool_inv (mset (sends acts)) c"
    unfolding assms(2) by (rule pool_inv_run [OF i(1)])
  have ti: "trace_inv E lokiPushURL idx c"
    unfolding assms(2) by (rule trace_inv_run [OF i(2)])
  have oi: "order_inv (sends acts) c"
    unfolding assms(2) by (rule order_inv_run [OF i(4)])
  have fi: "finished_inv (finished (emits acts)) c"
    unfolding assms(2) by (rule finished_inv_run) (simp add: finished_inv_def pool_init_def)
  have ci: "closing c"
    unfolding assms(2) by (rule closing_run [OF closing_init [OF assms(1)]])
  have wl: "0 < length (workers c)" using oi by (simp add: order_inv_def)
  have pre: "prefix (handled c) (sends acts)"
    using oi unfolding order_inv_def by (metis prefixI)
  have tp: "posts (ptrace c) = posts (concat (map (worker_events E lokiPushURL idx) (handled c)))"
    using ti by (simp add: trace_inv_def)
  have tf: "failures (ptrace c) =
      concat (map (\<lambda>d. case fst (pushLogToLoki E lokiPushURL d idx) of Some e \<Rightarrow> [e] | None \<Rightarrow> [])
               (handled c))"
    using ti by (simp add: trace_inv_def failures_concat_worker_events)
  have e: "handled c = sends acts \<and> finished (ptrace c) = finished (emits acts)"
    if ok: "out = Returned None" and fin: "script c = []"
  proof -
    have "waited c" unfolding assms(2) by (rule waited_run [OF i(3) [OF ok]])
    with fin have ex: "list_all (\<lambda>w. w = Exited) (workers c)" by (simp add: waited_def)
    with oi have "Exited \<in> set (workers c)"
      by (cases "workers c") (auto simp: order_inv_def)
    with pi have "chan c = []" by (simp add: pool_inv_def)
    with oi fin all_Exited_busy [OF ex] have h: "handled c = sends acts"
      by (simp add: order_inv_def)
    moreover have "finished (ptrace c) = finished (emits acts)"
      using fi fin by (simp add: finished_inv_def)
    ultimately show ?thesis by simp
  qed
  have c2: "out = Returned None \<and> script c = [] \<longrightarrow>
          handled c = sends acts
          \<and> finished (ptrace c) = [length (sends acts)]
          \<and> posts (ptrace c) = posts (concat (map (worker_events E lokiPushURL idx) (sends acts)))
          \<and> failures (ptrace c) =
              concat (map (\<lambda>d. case fst (pushLogToLoki E lokiPushURL d idx) of Some e \<Rightarrow> [e] | None \<Rightarrow> [])
                       (sends acts))"
  proof (intro impI, elim conjE)
    assume ok: "out = Returned None" and fin: "script c = []"
    from e [OF ok fin] have h: "handled c = sends acts"
      and n: "finished (ptrace c) = finished (emits acts)" by simp_all
    show "handled c = sends acts
          \<and> finished (ptrace c) = [length (sends acts)]
          \<and> posts (ptrace c) = posts (concat (map (worker_events E lokiPushURL idx) (sends acts)))
          \<and> failures (ptrace c) =
              concat (map (\<lambda>d. case fst (pushLogToLoki E lokiPushURL d idx) of Some e \<Rightarrow> [e] | None \<Rightarrow> [])
                       (sends acts))"
      using h n tp tf f(5) ok by simp
  qed
  have c3: "\<exists>sched'. length sched' \<le> pool_measure c
            \<and> script (run E lokiPushURL idx (sched @ sched') (pool_init 1 acts)) = []"
    using run_can_end [OF pi ci wl, of E lokiPushURL idx]
    unfolding run_append assms(2) [symmetric] .
  have c4: "(\<forall>d\<in>set (sends acts). fst (pushLogToLoki E lokiPushURL d idx) = None) \<longrightarrow>
          fst (main_sequential E source lokiPushURL idx) = out
          \<and> finished (snd (main_sequential E source lokiPushURL idx)) = finished (emits acts)
          \<and> posts (snd (main_sequential E source lokiPushURL idx)) =
               posts (concat (map (worker_events E lokiPushURL idx) (sends acts)))
          \<and> prefix (posts (ptrace c)) (posts (snd (main_sequential E source lokiPushURL idx)))
          \<and> (out = Returned None \<and> script c = [] \<longrightarrow>
               handled c = sends acts
               \<and> posts (ptrace c) = posts (snd (main_sequential E source lokiPushURL idx))
               \<and> finished (ptrace c) = finished (snd (main_sequential E source lokiPushURL idx)))"
  proof
    assume ok: "\<forall>d\<in>set (sends acts). fst (pushLogToLoki E lokiPushURL d idx) = None"
    note m = main_sequential_simulation [OF assms(1) ok]
    have pp: "prefix (posts (ptrace c)) (posts (snd (main_sequential E source lokiPushURL idx)))"
      unfolding tp m(3) by (rule posts_handled_prefix [OF pre])
    have ee: "out = Returned None \<and> script c = [] \<longrightarrow>
               handled c = sends acts
               \<and> posts (ptrace c) = posts (snd (main_sequential E source lokiPushURL idx))
               \<and> finished (ptrace c) = finished (snd (main_sequential E source lokiPushURL idx))"
      using e tp m by simp
    show "fst (main_sequential E source lokiPushURL idx) = out
          \<and> finished (snd (main_sequential E source lokiPushURL idx)) = finished (emits acts)
          \<and> posts (snd (main_sequential E source lokiPushURL idx)) =
               posts (concat (map (worker_events E lokiPushURL idx) (sends acts)))
          \<and> prefix (posts (ptrace c)) (posts (snd (main_sequential E source lokiPushURL idx)))
          \<and> (out = Returned None \<and> script c = [] \<longrightarrow>
               handled c = sends acts
               \<and> posts (ptrace c) = posts (snd (main_sequential E source lokiPushURL idx))
               \<and> finished (ptrace c) = finished (snd (main_sequential E source lokiPushURL idx)))"
      by (intro conjI) (rule m pp ee)+
  qed
  have c5: "\<forall>good d rest e.
          sends acts = good @ d # rest
          \<and> (\<forall>g\<in>set good. fst (pushLogToLoki E lokiPushURL g idx) = None)
          \<and> fst (pushLogToLoki E lokiPushURL d idx) = Some e \<longrightarrow>
          fst (main_sequential E source lokiPushURL idx) = Returned (Some (ErrCallback e))
          \<and> out \<noteq> Returned (Some (ErrCallback e))
          \<and> finished (snd (main_sequential E source lokiPushURL idx)) = []
          \<and> posts (snd (main_sequential E source lokiPushURL idx)) =
              posts (concat (map (worker_events E lokiPushURL idx) (good @ [d])))
          \<and> processedCount (snd (queryAndPushLogs E source (main_callback E lokiPushURL idx)
                                    \<lparr>trace = [], processedCount = 0\<rparr>)) = length good"
  proof (intro allI impI, elim conjE)
    fix good d rest e
    assume a: "sends acts = good @ d # rest"
      "\<forall>g\<in>set good. fst (pushLogToLoki E lokiPushURL g idx) = None"
      "fst (pushLogToLoki E lokiPushURL d idx) = Some e"
    note m = main_sequential_first_failure [OF assms(1) a]
    show "fst (main_sequential E source lokiPushURL idx) = Returned (Some (ErrCallback e))
          \<and> out \<noteq> Returned (Some (ErrCallback e))
          \<and> finished (snd (main_sequential E source lokiPushURL idx)) = []
          \<and> posts (snd (main_sequential E source lokiPushURL idx)) =
              posts (concat (map (worker_events E lokiPushURL idx) (good @ [d])))
          \<and> processedCount (snd (queryAndPushLogs E source (main_callback E lokiPushURL idx)
                                    \<lparr>trace = [], processedCount = 0\<rparr>)) = length good"
      by (intro conjI) (rule m)+
  qed
  show ?thesis
    by (intro conjI) (rule pre c2 c3 c4 c5)+
qed

text \<open>Claim C1, witness: two workers; a page with a document that is delivered, a hit
  without \<^verbatim>\<open>_source\<close>, a document for which the endpoint cannot be reached, a document without
  a timestamp string and a document to which the endpoint answers 500.\<close>

theorem C1_worker_pool_skips_and_counts_witness:
  "fst (main_parallel example_env_flaky example_source_failures) = Returned None
   \<and> sends (snd (main_parallel example_env_flaky example_source_failures)) =
        [example_doc_nomsg, example_doc, example_doc_bad_timestamp, example_doc_rfc]
   \<and> script (run example_env_flaky ''http://loki/push'' ''logs'' example_schedule_two
               (pool_init 2 (snd (main_parallel example_env_flaky example_source_failures)))) = []
   \<and> handled (run example_env_flaky ''http://loki/push'' ''logs'' example_schedule_two
               (pool_init 2 (snd (main_parallel example_env_flaky example_source_failures)))) =
        [example_doc_nomsg, example_doc_bad_timestamp, example_doc, example_doc_rfc]
   \<and> failures (ptrace (run example_env_flaky ''http://loki/push'' ''logs'' example_schedule_two
               (pool_init 2 (snd (main_parallel example_env_flaky example_source_failures))))) =
        [ErrTimestampField, ErrSend, ErrStatus 500 ''boom'']
   \<and> finished (ptrace (run example_env_flaky ''http://loki/push'' ''logs'' example_schedule_two
               (pool_init 2 (snd (main_parallel example_env_flaky example_source_failures))))) = [4]
   \<and> fst (main_sequential example_env_flaky example_source_failures ''http://loki/push'' ''logs'') =
        Returned (Some (ErrCallback ErrSend))
   \<and> finished (snd (main_sequential example_env_flaky example_source_failures ''http://loki/push'' ''logs'')) = []
   \<and> processedCount (snd (queryAndPushLogs example_env_flaky example_source_failures
        (main_callback example_env_flaky ''http://loki/push'' ''logs'') \<lparr>trace = [], processedCount = 0\<rparr>)) = 1
   \<and> moves example_env_flaky ''http://loki/push'' ''logs'' example_schedule_two
        (pool_init 2 (snd (main_parallel example_env_flaky example_source_failures)))
   \<and> length example_schedule_two \<le>
        pool_measure (pool_init 2 (snd (main_parallel example_env_flaky example_source_failures)))"
proof -
  define acts where "acts = snd (main_parallel example_env_flaky example_source_failures)"
  define c where "c = run example_env_flaky ''http://loki/push'' ''logs'' example_schedule_two (pool_init 2 acts)"
  have o: "fst (main_parallel example_env_flaky example_source_failures) = Returned None"
    by code_simp
  then have mp: "main_parallel example_env_flaky example_source_failures = (Returned None, acts)"
    by (simp add: acts_def prod_eq_iff)
  have s: "sends acts = [example_doc_nomsg, example_doc, example_doc_bad_timestamp, example_doc_rfc]"
    unfolding acts_def by code_simp
  have sc: "script c = []"
    unfolding c_def acts_def by code_simp
  have h: "handled c = [example_doc_nomsg, example_doc_bad_timestamp, example_doc, example_doc_rfc]"
    unfolding c_def acts_def by code_simp
  have p: "fst (pushLogToLoki example_env_flaky ''http://loki/push'' example_doc_nomsg ''logs'') = None"
    "fst (pushLogToLoki example_env_flaky ''http://loki/push'' example_doc_bad_timestamp ''logs'') =
              Some ErrTimestampField"
    "fst (pushLogToLoki example_env_flaky ''http://loki/push'' example_doc ''logs'') = Some ErrSend"
    "fst (pushLogToLoki example_env_flaky ''http://loki/push'' example_doc_rfc ''logs'') =
              Some (ErrStatus 500 ''boom'')"
    by code_simp+
  have two: "0 < (2::nat)" by simp
  note t = conjunct2 [OF C1_worker_pool_skips_and_counts [OF mp two c_def]]
  have t4: "failures (ptrace c) =
      concat (map (\<lambda>d. case fst (pushLogToLoki example_env_flaky ''http://loki/push'' d ''logs'') of
                          Some e \<Rightarrow> [e] | None \<Rightarrow> []) (handled c))"
    using t by (elim conjE)
  have t5: "Returned None = Returned None \<and> script c = [] \<longrightarrow>
      mset (handled c) = mset (sends acts) \<and> finished (ptrace c) = [length (sends acts)]"
    using t by (elim conjE)
  have t13: "\<forall>good d rest e.
      sends acts = good @ d # rest
      \<and> (\<forall>g\<in>set good. fst (pushLogToLoki example_env_flaky ''http://loki/push'' g ''logs'') = None)
      \<and> fst (pushLogToLoki example_env_flaky ''http://loki/push'' d ''logs'') = Some e \<longrightarrow>
      fst (main_sequential example_env_flaky example_source_failures ''http://loki/push'' ''logs'') =
        Returned (Some (ErrCallback e))
      \<and> last (snd (main_sequential example_env_flaky example_source_failures ''http://loki/push'' ''logs'')) =
        Log (FatalTransfer (ErrCallback e))
      \<and> finished (snd (main_sequential example_env_flaky example_source_failures ''http://loki/push'' ''logs'')) = []
      \<and> failures (snd (main_sequential example_env_flaky example_source_failures ''http://loki/push'' ''logs'')) = []
      \<and> posts (snd (main_sequential example_env_flaky example_source_failures ''http://loki/push'' ''logs'')) =
          posts (concat (map (worker_events example_env_flaky ''http://loki/push'' ''logs'') (good @ [d])))
      \<and> processedCount (snd (queryAndPushLogs example_env_flaky example_source_failures
           (main_callback example_env_flaky ''http://loki/push'' ''logs'')
           \<lparr>trace = [], processedCount = 0\<rparr>)) = length good"
    using t by (elim conjE)
  have f: "failures (ptrace c) = [ErrTimestampField, ErrSend, ErrStatus 500 ''boom'']"
    unfolding t4 by (simp add: h p)
  have n: "finished (ptrace c) = [4]"
    using t5 sc s by simp
  have sp: "sends acts = [example_doc_nomsg] @ example_doc # [example_doc_bad_timestamp, example_doc_rfc]"
    by (simp add: s)
  have gd: "\<forall>g\<in>set [example_doc_nomsg].
      fst (pushLogToLoki example_env_flaky ''http://loki/push'' g ''logs'') = None"
    by (simp add: p)
  from t13 sp gd p(3) have q:
    "fst (main_sequential example_env_flaky example_source_failures ''http://loki/push'' ''logs'') =
        Returned (Some (ErrCallback ErrSend))
     \<and> finished (snd (main_sequential example_env_flaky example_source_failures ''http://loki/push'' ''logs'')) = []
     \<and> processedCount (snd (queryAndPushLogs example_env_flaky example_source_failures
          (main_callback example_env_flaky ''http://loki/push'' ''logs'')
          \<lparr>trace = [], processedCount = 0\<rparr>)) = length [example_doc_nomsg]"
    by blast
  define c0 where "c0 = run example_env_flaky ''http://loki/push'' ''logs'' [] (pool_init 2 acts)"
  have c0: "c0 = pool_init 2 acts" by (simp add: c0_def run_def)
  have mv: "moves example_env_flaky ''http://loki/push'' ''logs'' example_schedule_two (pool_init 2 acts)"
    unfolding acts_def by code_simp
  note t0 = conjunct2 [OF C1_worker_pool_skips_and_counts [OF mp two c0_def]]
  have "\<forall>sched'. moves example_env_flaky ''http://loki/push'' ''logs'' sched' c0 \<longrightarrow>
      length sched' \<le> pool_measure c0"
    using t0 by (elim conjE)
  with mv have b: "length example_schedule_two \<le> pool_measure (pool_init 2 acts)"
    by (simp add: c0)
  show ?thesis
    using o s sc h f n q mv b unfolding c_def acts_def by simp
qed

text \<open>
  Claim C1 as stated fails on the sequential pipeline: on the same source and endpoint,
  the rejection of the first document ends the run with an error; the second document
  is never handed to delivery, no "failed to push" line and no count are logged.
\<close>

theorem C1_sequential_aborts_counterexample:
  "fst (main_sequential example_env_500 example_source_mixed ''http://loki/push'' ''logs'') =
      Returned (Some (ErrCallback (ErrStatus 500 ''boom'')))
   \<and> length (posts (snd (main_sequential example_env_500 example_source_mixed ''http://loki/push'' ''logs''))) = 1
   \<and> failures (snd (main_sequential example_env_500 example_source_mixed ''http://loki/push'' ''logs'')) = []
   \<and> finished (snd (main_sequential example_env_500 example_source_mixed ''http://loki/push'' ''logs'')) = []"
  by code_simp

text \<open>
  Claim C2 as stated fails: with an endpoint that always answers 500 the sequential
  pipeline returns an error after one POST and reports no count, the worker-pool pipeline
  with one worker returns nil after two POSTs and reports the count 2.
\<close>

theorem C2_variants_differ_counterexample:
  "fst (main_sequential example_env_500 example_source_good ''http://loki/push'' ''logs'') =
      Returned (Some (ErrCallback (ErrStatus 500 ''boom'')))
   \<and> fst (main_parallel example_env_500 example_source_good) = Returned None
   \<and> finished (snd (main_sequential example_env_500 example_source_good ''http://loki/push'' ''logs'')) = []
   \<and> finished (ptrace (run example_env_500 ''http://loki/push'' ''logs'' example_schedule_one
        (pool_init 1 (snd (main_parallel example_env_500 example_source_good))))) = [2]
   \<and> length (posts (snd (main_sequential example_env_500 example_source_good ''http://loki/push'' ''logs''))) = 1
   \<and> length (posts (ptrace (run example_env_500 ''http://loki/push'' ''logs'' example_schedule_one
        (pool_init 1 (snd (main_parallel example_env_500 example_source_good)))))) = 2
   \<and> script (run example_env_500 ''http://loki/push'' ''logs'' example_schedule_one
        (pool_init 1 (snd (main_parallel example_env_500 example_source_good)))) = []"
  by code_simp

text \<open>Claim C2, witness: two pages of one document each; an endpoint that answers 204,
  then one that fails on both documents.\<close>

theorem C2_pool_of_one_matches_sequential_without_document_errors_witness:
  "fst (main_sequential example_env example_source_good ''http://loki/push'' ''logs'') = Returned None
   \<and> script (run example_env ''http://loki/push'' ''logs'' example_schedule_one
        (pool_init 1 (snd (main_parallel example_env example_source_good)))) = []
   \<and> handled (run example_env ''http://loki/push'' ''logs'' example_schedule_one
        (pool_init 1 (snd (main_parallel example_env example_source_good)))) =
        [example_doc, example_doc_rfc]
   \<and> posts (ptrace (run example_env ''http://loki/push'' ''logs'' example_schedule_one
        (pool_init 1 (snd (main_parallel example_env example_source_good))))) =
      posts (snd (main_sequential example_env example_source_good ''http://loki/push'' ''logs''))
   \<and> finished (snd (main_sequential example_env example_source_good ''http://loki/push'' ''logs'')) = [2]
   \<and> fst (main_sequential example_env_flaky example_source_good ''http://loki/push'' ''logs'') =
        Returned (Some (ErrCallback ErrSend))
   \<and> processedCount (snd (queryAndPushLogs example_env_flaky example_source_good
        (main_callback example_env_flaky ''http://loki/push'' ''logs'') \<lparr>trace = [], processedCount = 0\<rparr>)) = 0
   \<and> failures (ptrace (run example_env_flaky ''http://loki/push'' ''logs'' example_schedule_one
        (pool_init 1 (snd (main_parallel example_env_flaky example_source_good))))) =
        [ErrSend, ErrStatus 500 ''boom'']
   \<and> finished (ptrace (run example_env_flaky ''http://loki/push'' ''logs'' example_schedule_one
        (pool_init 1 (snd (main_parallel example_env_flaky example_source_good))))) = [2]"
proof -
  define acts where "acts = snd (main_parallel example_env example_source_good)"
  define c where "c = run example_env ''http://loki/push'' ''logs'' example_schedule_one (pool_init 1 acts)"
  have o: "fst (main_parallel example_env example_source_good) = Returned None"
    by code_simp
  then have mp: "main_parallel example_env example_source_good = (Returned None, acts)"
    by (simp add: acts_def prod_eq_iff)
  have s: "sends acts = [example_doc, example_doc_rfc]"
    unfolding acts_def by code_simp
  have fe: "finished (emits acts) = [2]"
    unfolding acts_def by code_simp
  have sc: "script c = []"
    unfolding c_def acts_def by code_simp
  have p: "fst (pushLogToLoki example_env ''http://loki/push'' example_doc ''logs'') = None"
    "fst (pushLogToLoki example_env ''http://loki/push'' example_doc_rfc ''logs'') = None"
    by code_simp+
  have ok: "\<forall>d\<in>set (sends acts). fst (pushLogToLoki example_env ''http://loki/push'' d ''logs'') = None"
    using p by (simp add: s)
  note t = C2_pool_of_one_matches_sequential_without_document_errors [OF mp c_def]
  have t4: "(\<forall>d\<in>set (sends acts). fst (pushLogToLoki example_env ''http://loki/push'' d ''logs'') = None) \<longrightarrow>
          fst (main_sequential example_env example_source_good ''http://loki/push'' ''logs'') = Returned None
          \<and> finished (snd (main_sequential example_env example_source_good ''http://loki/push'' ''logs'')) =
               finished (emits acts)
          \<and> posts (snd (main_sequential example_env example_source_good ''http://loki/push'' ''logs'')) =
               posts (concat (map (worker_events example_env ''http://loki/push'' ''logs'') (sends acts)))
          \<and> prefix (posts (ptrace c))
               (posts (snd (main_sequential example_env example_source_good ''http://loki/push'' ''logs'')))
          \<and> (Returned None = Returned None \<and> script c = [] \<longrightarrow>
               handled c = sends acts
               \<and> posts (ptrace c) =
                  posts (snd (main_sequential example_env example_source_good ''http://loki/push'' ''logs''))
               \<and> finished (ptrace c) =
                  finished (snd (main_sequential example_env example_source_good ''http://loki/push'' ''logs'')))"
    using t by (elim conjE)
  have a: "fst (main_sequential example_env example_source_good ''http://loki/push'' ''logs'') = Returned None
     \<and> script c = [] \<and> handled c = [example_doc, example_doc_rfc]
     \<and> posts (ptrace c) =
         posts (snd (main_sequential example_env example_source_good ''http://loki/push'' ''logs''))
     \<and> finished (snd (main_sequential example_env example_source_good ''http://loki/push'' ''logs'')) = [2]"
    using t4 ok sc s fe by simp
  define acts' where "acts' = snd (main_parallel example_env_flaky example_source_good)"
  define c' where "c' = run example_env_flaky ''http://loki/push'' ''logs'' example_schedule_one (pool_init 1 acts')"
  have o': "fst (main_parallel example_env_flaky example_source_good) = Returned None"
    by code_simp
  then have mp': "main_parallel example_env_flaky example_source_good = (Returned None, acts')"
    by (simp add: acts'_def prod_eq_iff)
  have s': "sends acts' = [example_doc, example_doc_rfc]"
    unfolding acts'_def by code_simp
  have sc': "script c' = []"
    unfolding c'_def acts'_def by code_simp
  have p': "fst (pushLogToLoki example_env_flaky ''http://loki/push'' example_doc ''logs'') = Some ErrSend"
    "fst (pushLogToLoki example_env_flaky ''http://loki/push'' example_doc_rfc ''logs'') =
       Some (ErrStatus 500 ''boom'')"
    by code_simp+
  note t' = C2_pool_of_one_matches_sequential_without_document_errors [OF mp' c'_def]
  have t2: "Returned None = Returned None \<and> script c' = [] \<longrightarrow>
          handled c' = sends acts'
          \<and> finished (ptrace c') = [length (sends acts')]
          \<and> posts (ptrace c') =
              posts (concat (map (worker_events example_env_flaky ''http://loki/push'' ''logs'') (sends acts')))
          \<and> failures (ptrace c') =
              concat (map (\<lambda>d. case fst (pushLogToLoki example_env_flaky ''http://loki/push'' d ''logs'') of
                                  Some e \<Rightarrow> [e] | None \<Rightarrow> []) (sends acts'))"
    using t' by (elim conjE)
  have t5: "\<forall>good d rest e.
          sends acts' = good @ d # rest
          \<and> (\<forall>g\<in>set good. fst (pushLogToLoki example_env_flaky ''http://loki/push'' g ''logs'') = None)
          \<and> fst (pushLogToLoki example_env_flaky ''http://loki/push'' d ''logs'') = Some e \<longrightarrow>
          fst (main_sequential example_env_flaky example_source_good ''http://loki/push'' ''logs'') =
             Returned (Some (ErrCallback e))
          \<and> Returned None \<noteq> Returned (Some (ErrCallback e))
          \<and> finished (snd (main_sequential example_env_flaky example_source_good ''http://loki/push'' ''logs'')) = []
          \<and> posts (snd (main_sequential example_env_flaky example_source_good ''http://loki/push'' ''logs'')) =
              posts (concat (map (worker_events example_env_flaky ''http://loki/push'' ''logs'') (good @ [d])))
          \<and> processedCount (snd (queryAndPushLogs example_env_flaky example_source_good
               (main_callback example_env_flaky ''http://loki/push'' ''logs'')
               \<lparr>trace = [], processedCount = 0\<rparr>)) = length good"
    using t' by (elim conjE)
  have sp: "sends acts' = [] @ example_doc # [example_doc_rfc]"
    by (simp add: s')
  have gd: "\<forall>g\<in>set []. fst (pushLogToLoki example_env_flaky ''http://loki/push'' g ''logs'') = None"
    by simp
  from t5 sp gd p'(1) have q:
    "fst (main_sequential example_env_flaky example_source_good ''http://loki/push'' ''logs'') =
        Returned (Some (ErrCallback ErrSend))
     \<and> processedCount (snd (queryAndPushLogs example_env_flaky example_source_good
          (main_callback example_env_flaky ''http://loki/push'' ''logs'')
          \<lparr>trace = [], processedCount = 0\<rparr>)) = length ([] :: doc list)"
    by blast
  have b: "failures (ptrace c') = [ErrSend, ErrStatus 500 ''boom''] \<and> finished (ptrace c') = [2]"
    using t2 sc' by (simp add: s' p')
  show ?thesis
    using a q b unfolding c_def acts_def c'_def acts'_def by simp
qed

section \<open>The deferred cleanup of the cursor\<close>

lemma clears_append [simp]: "clears (a @ b) = clears a @ clears b"
  by (simp add: clears_def)

lemma clears_Cons: "clears (e # r) = clears [e] @ clears r"
  by (simp add: clears_def)

lemma clears_Log [simp]: "clears (Log l # r) = clears r" "clears (map Log ls) = []"
  by (simp_all add: clears_def)

lemma pushLogToLoki_no_clears [simp]: "clears (snd (pushLogToLoki E url d idx)) = []"
  by (auto simp: pushLogToLoki_def deliver_def clears_def split: sum.splits option.splits prod.splits)

lemma hits_no_clears:
  "queryAndPushLogsParallel_hits hits n = (p, acts, n') \<Longrightarrow> clears (emits acts) = []"
proof (induction hits arbitrary: n p acts n')
  case Nil
  then show ?case by auto
next
  case (Cons hit hits)
  then show ?case
    by (auto split: option.splits prod.splits)
qed

lemma loop_no_clears:
  "queryAndPushLogsParallel_loop e source scrollID n = (out, sid, acts, n') \<Longrightarrow>
   clears (emits acts) = []"
proof (induction e source scrollID n arbitrary: out sid acts n' rule: queryAndPushLogsParallel_loop.induct)
  case (1 e scrollID n)
  then show ?case by auto
next
  case (2 e rest scrollID n)
  then show ?case by auto
next
  case (3 e status body rest scrollID n)
  show ?case
  proof (cases "read_page status body scrollID")
    case (Stop o1 s1)
    with 3(2) show ?thesis by auto
  next
    case (Hits s1 hits)
    obtain p a1 n1 where h: "queryAndPushLogsParallel_hits hits n = (p, a1, n1)"
      by (cases "queryAndPushLogsParallel_hits hits n") auto
    note hf = hits_no_clears [OF h]
    show ?thesis
    proof (cases p)
      case True
      with 3(2) Hits h hf show ?thesis by auto
    next
      case False
      obtain o2 s2 a2 n2 where
        l: "queryAndPushLogsParallel_loop ErrScrollRequest rest s1 n1 = (o2, s2, a2, n2)"
        by (cases "queryAndPushLogsParallel_loop ErrScrollRequest rest s1 n1") auto
      have ih: "clears (emits a2) = []"
        using 3(1) [OF Hits _ _ _ l] h False by auto
      with 3(2) Hits h hf False l show ?thesis by auto
    qed
  qed
qed

lemma sequential_hits_no_clears:
  "clears (trace (snd (queryAndPushLogs_hits (main_callback E url idx) hits w))) = clears (trace w)"
proof (induction hits arbitrary: w)
  case Nil
  then show ?case by simp
next
  case (Cons hit hits)
  show ?case
  proof (cases "as_map hit")
    case None
    then show ?thesis by simp
  next
    case (Some h)
    show ?thesis
    proof (cases "as_map (index h ''_source'')")
      case None
      with Some Cons.IH [of "w\<lparr>trace := trace w @ [Log (WarnNoSource hit)]\<rparr>"] show ?thesis
        by simp
    next
      case (Some logDoc)
      obtain r evs where p: "pushLogToLoki E url logDoc idx = (r, evs)"
        by (cases "pushLogToLoki E url logDoc idx") auto
      then have c: "clears evs = []"
        using pushLogToLoki_no_clears [of E url logDoc idx] by simp
      show ?thesis
      proof (cases r)
        case None
        with \<open>as_map hit = Some h\<close> Some p c
          Cons.IH [of "w\<lparr>trace := trace w @ evs, processedCount := processedCount w + 1\<rparr>"]
        show ?thesis by (simp add: main_callback_def)
      next
        case (Some e)
        with \<open>as_map hit = Some h\<close> \<open>as_map (index h ''_source'') = Some logDoc\<close> p c
        show ?thesis by (simp add: main_callback_def)
      qed
    qed
  qed
qed

lemma sequential_loop_no_clears:
  "clears (trace (snd (snd (queryAndPushLogs_loop (main_callback E url idx) e source sid w)))) =
   clears (trace w)"
proof (induction source arbitrary: e sid w)
  case Nil
  then show ?case by simp
next
  case (Cons a source)
  show ?case
  proof (cases a)
    case RequestFailed
    then show ?thesis by simp
  next
    case (HttpResponse st b)
    show ?thesis
    proof (cases "read_page st b sid")
      case (Stop o1 s1)
      with HttpResponse show ?thesis by simp
    next
      case (Hits s1 hits)
      obtain r w' where h: "queryAndPushLogs_hits (main_callback E url idx) hits w = (r, w')"
        by (cases "queryAndPushLogs_hits (main_callback E url idx) hits w") auto
      have c: "clears (trace w') = clears (trace w)"
        using sequential_hits_no_clears [of E url idx hits w] h by simp
      with HttpResponse Hits h Cons.IH [of ErrScrollRequest s1 w'] show ?thesis
        by (cases r) simp_all
    qed
  qed
qed

lemma pushLogToLoki_clearScroll_Do [simp]:
  "pushLogToLoki (E\<lparr>clearScroll_Do := cs\<rparr>) url d idx = pushLogToLoki E url d idx"
proof -
  have a: "strings_ToLower (E\<lparr>clearScroll_Do := cs\<rparr>) s = strings_ToLower E s" for s
    by (simp add: strings_ToLower_def)
  have b: "labels (E\<lparr>clearScroll_Do := cs\<rparr>) d idx = labels E d idx"
    by (auto simp: labels_def a Let_def split: option.splits)
  have c: "message (E\<lparr>clearScroll_Do := cs\<rparr>) d = message E d"
    by (simp add: message_def split: option.splits)
  have n: "normalize (E\<lparr>clearScroll_Do := cs\<rparr>) d idx = normalize E d idx"
    by (simp add: normalize_shape b c split: sum.splits prod.splits)
  have e: "deliver (E\<lparr>clearScroll_Do := cs\<rparr>) url r = deliver E url r" for r
    by (simp add: deliver_def)
  show ?thesis by (simp add: pushLogToLoki_def n e split: sum.splits prod.splits)
qed

lemma main_callback_clearScroll_Do [simp]:
  "main_callback (E\<lparr>clearScroll_Do := cs\<rparr>) url idx = main_callback E url idx"
  by (rule ext, rule ext) (simp add: main_callback_def)

text \<open>
  Property X1, what the deferred function does on every exit of either pipeline: it
  sends one \<^verbatim>\<open>ClearScrollRequest\<close>, for the last value of \<^verbatim>\<open>scrollID\<close>, when that value is
  not empty, and none otherwise; the failure of the request is logged as a warning and
  has no part in the outcome.
\<close>

theorem X1_cursor_cleanup:
  assumes "queryAndPushLogsParallel_loop ErrInitialSearch source [] 0 = (out, sid, body, n)"
      and "queryAndPushLogs_loop (main_callback E url idx) ErrInitialSearch source []
             \<lparr>trace = [], processedCount = 0\<rparr> = (out', sid', w')"
  shows "fst (main_parallel E source) = out
     \<and> clears (emits (snd (main_parallel E source))) = (if sid = [] then [] else [sid])
     \<and> fst (main_parallel (E\<lparr>clearScroll_Do := cs\<rparr>) source) = out
     \<and> fst (main_sequential E source url idx) = out'
     \<and> clears (snd (main_sequential E source url idx)) = (if sid' = [] then [] else [sid'])
     \<and> fst (main_sequential (E\<lparr>clearScroll_Do := cs\<rparr>) source url idx) = out'
     \<and> (Log WarnClearScrollFailed \<in> set (clearScroll E sid) \<longleftrightarrow> sid \<noteq> [] \<and> \<not> clearScroll_Do E sid)"
proof -
  note c = loop_no_clears [OF assms(1)]
  have k: "clears (trace w') = []"
    using sequential_loop_no_clears [of E url idx ErrInitialSearch source "[]"
        "\<lparr>trace = [], processedCount = 0\<rparr>"] assms(2) by simp
  have p: "fst (main_parallel E' source) = out
     \<and> clears (emits (snd (main_parallel E' source))) = (if sid = [] then [] else [sid])" for E'
    using c by (cases out rule: outcome_cases)
      (simp_all add: main_parallel_def queryAndPushLogsParallel_def assms(1) clears_clearScroll)
  have q: "fst (main_sequential E source url idx) = out'
     \<and> clears (snd (main_sequential E source url idx)) = (if sid' = [] then [] else [sid'])"
    using k by (cases out' rule: outcome_cases)
      (simp_all add: main_sequential_def queryAndPushLogs_def assms(2) clears_clearScroll)
  have r: "fst (main_sequential (E\<lparr>clearScroll_Do := cs\<rparr>) source url idx) = out'"
    by (cases out' rule: outcome_cases)
      (simp_all add: main_sequential_def queryAndPushLogs_def assms(2))
  have w: "Log WarnClearScrollFailed \<in> set (clearScroll E sid) \<longleftrightarrow> sid \<noteq> [] \<and> \<not> clearScroll_Do E sid"
    by (simp add: clearScroll_def)
  show ?thesis using p [of E] p [of "E\<lparr>clearScroll_Do := cs\<rparr>"] q r w by simp
qed

text \<open>Property X1, witness: three pages, the last one empty; the cursor of the second page
  is the one cleared.\<close>

theorem X1_cursor_cleanup_witness:
  "clears (emits (snd (main_parallel example_env example_source_good))) = [''abd'']
   \<and> clears (snd (main_sequential example_env example_source_good ''http://loki/push'' ''logs'')) = [''abd'']
   \<and> fst (main_sequential (example_env\<lparr>clearScroll_Do := (\<lambda>s. False)\<rparr>) example_source_good
             ''http://loki/push'' ''logs'') = Returned None"
proof -
  define L where "L = queryAndPushLogsParallel_loop ErrInitialSearch example_source_good [] 0"
  define S where "S = queryAndPushLogs_loop (main_callback example_env ''http://loki/push'' ''logs'')
      ErrInitialSearch example_source_good [] \<lparr>trace = [], processedCount = 0\<rparr>"
  have a: "queryAndPushLogsParallel_loop ErrInitialSearch example_source_good [] 0 =
      (fst L, fst (snd L), fst (snd (snd L)), snd (snd (snd L)))"
    by (simp add: L_def)
  have b: "queryAndPushLogs_loop (main_callback example_env ''http://loki/push'' ''logs'')
      ErrInitialSearch example_source_good [] \<lparr>trace = [], processedCount = 0\<rparr> =
      (fst S, fst (snd S), snd (snd S))"
    by (simp add: S_def)
  have l: "fst (snd L) = ''abd''" unfolding L_def by code_simp
  have s: "fst (snd S) = ''abd''" "fst S = Returned None" unfolding S_def by code_simp+
  show ?thesis
    using X1_cursor_cleanup [OF a b, of "\<lambda>s. False"] l s by simp
qed

end
